(* ===== verification/Prelude.thy ===== *)
theory Prelude
  imports Main "HOL-Library.Multiset" "HOL-Library.Sublist"
begin

text \<open>
  Shared vocabulary of the relay network engine model: the types of relay URLs,
  public keys and events, the process-wide event bus (\<open>Network.emitter\<close>), and
  the insertion-ordered sets that the TypeScript code gets from \<open>new Set(...)\<close>,
  \<open>Array.from\<close> and the \<open>if (!xs.includes(x)) xs.push(x)\<close> idiom. The lemmas on
  them are declared into the collection \<open>ord_set_simps\<close> and used by every
  component theory.
\<close>

named_theorems ord_set_simps "facts on insertion-ordered sets"
named_theorems effect_simps "facts on effect logs"

type_synonym url = string
type_synonym pubkey = string
type_synonym event_id = string

text \<open>
  An event as the code sees it (\<open>src/engine/types\<close>): the signed fields that
  matter for identity and routing, and the client annotation \<open>seen_on\<close>.
  \<open>content\<close> is optional because the code coerces a missing content to the
  empty string on first sight (\<open>event.content || ""\<close>).
\<close>

record event =
  ev_id :: event_id
  ev_pubkey :: pubkey
  ev_created_at :: nat
  ev_kind :: nat
  ev_tags :: "string list list"
  ev_content :: "string option"
  ev_sig :: string
  ev_seen_on :: "url list"

text \<open>The messages of the process-wide event bus \<open>Network.emitter\<close>.\<close>

datatype bus_event =
    BusPublish "url list"
  | BusSubOpen "url list"
  | BusSubClose "url list"
  | BusEvent url event
  | BusEose url nat
  | BusErrorSet url string
  | BusErrorClear url "string option"

subsection \<open>Insertion-ordered sets\<close>

text \<open>
  A JavaScript \<open>Set\<close> iterates in insertion order, and adding a present
  element changes nothing. \<open>ord_insert xs x\<close> is \<open>set.add(x)\<close> on the set held as
  the list \<open>xs\<close>; it is also the code's \<open>if (!seen_on.includes(url))
  seen_on.push(url)\<close>.
\<close>

definition ord_insert :: "'a list \<Rightarrow> 'a \<Rightarrow> 'a list" where
  "ord_insert xs x = (if x \<in> set xs then xs else xs @ [x])"

definition ord_set_of :: "'a list \<Rightarrow> 'a list" where
  "ord_set_of xs = foldl ord_insert [] xs"

lemma set_ord_insert [simp, ord_set_simps]: "set (ord_insert xs x) = insert x (set xs)"
  by (auto simp: ord_insert_def)

lemma distinct_ord_insert [simp, ord_set_simps]: "distinct (ord_insert xs x) = distinct xs"
  by (simp add: ord_insert_def)

lemma ord_insert_present [ord_set_simps]: "x \<in> set xs \<Longrightarrow> ord_insert xs x = xs"
  by (simp add: ord_insert_def)

lemma ord_insert_absent [ord_set_simps]: "x \<notin> set xs \<Longrightarrow> ord_insert xs x = xs @ [x]"
  by (simp add: ord_insert_def)

lemma remdups_drop_later_dup:
  "x \<in> set ys \<Longrightarrow> remdups (zs @ x # ys) = remdups (zs @ ys)"
  by (induction zs) auto

lemma foldl_ord_insert_rev_remdups:
  "foldl ord_insert acc xs = rev (remdups (rev (acc @ xs)))" if "distinct acc"
  using that
proof (induction xs arbitrary: acc)
  case Nil
  then show ?case by (simp add: distinct_remdups_id)
next
  case (Cons x xs)
  have "distinct (ord_insert acc x)" using Cons.prems by simp
  then have "foldl ord_insert (ord_insert acc x) xs
      = rev (remdups (rev (ord_insert acc x @ xs)))" by (rule Cons.IH)
  moreover have "rev (remdups (rev (ord_insert acc x @ xs))) = rev (remdups (rev (acc @ x # xs)))"
    by (cases "x \<in> set acc") (simp_all add: ord_insert_def remdups_drop_later_dup)
  ultimately show ?case by simp
qed

text \<open>
  \<open>Array.from(new Set(xs))\<close> keeps the first occurrence of each element, in order:
  the library's \<open>remdups\<close> keeps the last one, so the equivalence goes through
  \<open>rev\<close>.
\<close>

lemma ord_set_of_eq [ord_set_simps]: "ord_set_of xs = rev (remdups (rev xs))"
  by (simp add: ord_set_of_def foldl_ord_insert_rev_remdups)

lemma set_ord_set_of [simp, ord_set_simps]: "set (ord_set_of xs) = set xs"
  by (simp add: ord_set_of_eq)

lemma distinct_ord_set_of [simp, ord_set_simps]: "distinct (ord_set_of xs)"
  by (simp add: ord_set_of_eq)

lemma length_ord_set_of [ord_set_simps]: "length (ord_set_of xs) = card (set xs)"
  by (metis distinct_card distinct_ord_set_of set_ord_set_of)

lemma ord_set_of_snoc [ord_set_simps]: "ord_set_of (xs @ [x]) = ord_insert (ord_set_of xs) x"
  by (simp add: ord_set_of_def)

lemma ord_set_of_distinct [ord_set_simps]: "distinct xs \<Longrightarrow> ord_set_of xs = xs"
  by (simp add: ord_set_of_eq distinct_remdups_id)

subsection \<open>Effect logs\<close>

text \<open>
  Each coordinator records what it does to the outside (bus messages, callbacks,
  transport calls) as a list of effects in program order. \<open>occurrences\<close> counts
  an effect in such a log.
\<close>

abbreviation occurrences :: "'a list \<Rightarrow> 'a \<Rightarrow> nat" where
  "occurrences xs x \<equiv> count_list xs x"

lemma count_list_append_single [effect_simps]:
  "count_list (xs @ [y]) x = count_list xs x + (if y = x then 1 else 0)"
  by simp

lemma count_list_0_iff [effect_simps]: "count_list xs x = 0 \<longleftrightarrow> x \<notin> set xs"
  by (induction xs) auto

text \<open>JavaScript truthiness of an optional number (\<open>if (timeout)\<close>).\<close>

definition truthy_nat :: "nat option \<Rightarrow> bool" where
  "truthy_nat t = (case t of None \<Rightarrow> False | Some n \<Rightarrow> n \<noteq> 0)"

text \<open>JavaScript truthiness of an optional string (\<open>socket.error\<close>): the empty string is falsy.\<close>

definition truthy_str :: "string option \<Rightarrow> bool" where
  "truthy_str e = (case e of None \<Rightarrow> False | Some s \<Rightarrow> s \<noteq> [])"

lemma truthy_str_simps [simp]:
  "truthy_str None = False" "truthy_str (Some s) = (s \<noteq> [])"
  by (simp_all add: truthy_str_def)

lemma truthy_nat_simps [simp]:
  "truthy_nat None = False" "truthy_nat (Some n) = (n \<noteq> 0)"
  by (simp_all add: truthy_nat_def)

end
