(* ===== verification/Session.thy ===== *)
theory Session
  imports Prelude
begin

text \<open>
  The session builder: \<open>getExecutor\<close> of \<open>src/engine/components/Network.ts\<close>
  (lines 54--119) with the authentication callbacks it registers and the boot gate it
  puts on relays that want payment or authentication, and the selector
  \<open>relayHasError\<close> (line 46). The process-wide connection pool of the paravel
  library is a map from URL to socket; \<open>Pool.get\<close>, which creates a socket on
  first use, and \<open>Socket.connect\<close> are modelled from the specification's
  transport boundary. Effects on the outside (connections, timers, the auth
  callback) are appended to an I/O log in program order.
\<close>

datatype sock_status = StatusNew | StatusPending | StatusReady | StatusClosed

record socket =
  sock_url :: url
  sock_status :: sock_status
  sock_error :: "string option"
  sock_booted :: bool
  sock_gated :: bool

record limitation =
  payment_required :: bool
  auth_required :: bool

datatype io_effect =
    Connect url
  | BootTimer url nat
  | AuthCallback url string

record net =
  sockets :: "url \<rightharpoonup> socket"
  pool_booted :: bool
  auth_handler_set :: bool
  bus :: "bus_event list"
  io :: "io_effect list"

record config =
  force_relays :: "url list"
  count_relays :: "url list"
  multiplextr_url :: url
  relay_info :: "url \<Rightarrow> limitation option"

datatype target = Plex "url list" url | Relays "url list"

subsection \<open>The pool (paravel, at its boundary)\<close>

definition new_socket :: "url \<Rightarrow> socket" where
  "new_socket u = \<lparr>sock_url = u, sock_status = StatusNew, sock_error = None,
                   sock_booted = False, sock_gated = False\<rparr>"

definition pool_get :: "net \<Rightarrow> url \<Rightarrow> socket \<times> net" where
  "pool_get n u = (case sockets n u of
       Some s \<Rightarrow> (s, n)
     | None \<Rightarrow> (new_socket u, n\<lparr>sockets := (sockets n)(u \<mapsto> new_socket u)\<rparr>))"

definition sock_connect :: "socket \<Rightarrow> socket" where
  "sock_connect s = (if sock_status s \<in> {StatusNew, StatusClosed}
                     then s\<lparr>sock_status := StatusPending\<rparr> else s)"

text \<open>
  The selector of line 46, \<open>Boolean(Network.pool.get(url, {autoConnect: false})?.error)\<close>:
  \<open>pool.get\<close> returns the relay's socket, creating it (unconnected) when the pool has
  none, so the selector can add a socket to the pool.
\<close>

definition relayHasError :: "net \<Rightarrow> url \<Rightarrow> bool \<times> net" where
  "relayHasError n u = (let (s, n1) = pool_get n u in (truthy_str (sock_error s), n1))"

subsection \<open>Choosing the target\<close>

text \<open>
  Lines 55--77: \<open>FORCE_RELAYS\<close> replaces the URLs; the multiplexer is used when
  its URL is set and either more than one relay is asked for or a connection to it
  already exists, and its socket has no error; otherwise one socket per URL.
  \<open>pool.get\<close> creates the multiplexer's socket even when its error then rules it
  out.
\<close>

definition executor_urls :: "config \<Rightarrow> url list \<Rightarrow> url list" where
  "executor_urls cfg urls = (if force_relays cfg \<noteq> [] then force_relays cfg else urls)"

fun pool_get_all :: "net \<Rightarrow> url list \<Rightarrow> net" where
  "pool_get_all n [] = n"
| "pool_get_all n (u # us) = pool_get_all (snd (pool_get n u)) us"

definition choose_target :: "config \<Rightarrow> net \<Rightarrow> url list \<Rightarrow> target \<times> net" where
  "choose_target cfg n urls =
     (let mux = multiplextr_url cfg;
          plex = (if mux \<noteq> [] \<and> (1 < length urls \<or> mux \<in> dom (sockets n))
                  then let (s, n1) = pool_get n mux in
                       (if \<not> truthy_str (sock_error s) then Some (Plex urls mux, n1) else None, n1)
                  else (None, n))
      in case plex of
           (Some tn, _) \<Rightarrow> tn
         | (None, n1) \<Rightarrow> (Relays urls, pool_get_all n1 urls))"

definition target_sockets :: "target \<Rightarrow> url list" where
  "target_sockets t = (case t of Plex _ mux \<Rightarrow> [mux] | Relays us \<Rightarrow> us)"

subsection \<open>Connecting and the boot gate\<close>

text \<open>
  Lines 99--116, for each socket of the target: connect it; if the gate is not
  bypassed, the relay's advertised limitation asks for payment or authentication
  and the socket is pending, override its \<open>shouldDeferWork\<close> and start a two
  second timer that sets its \<open>booted\<close> flag.
\<close>

definition wait_for_boot :: "config \<Rightarrow> url \<Rightarrow> bool" where
  "wait_for_boot cfg u = (case relay_info cfg u of
      None \<Rightarrow> False
    | Some l \<Rightarrow> payment_required l \<or> auth_required l)"

definition boot_ms :: nat where
  "boot_ms = 2000"

definition connect_socket :: "config \<Rightarrow> bool \<Rightarrow> net \<Rightarrow> url \<Rightarrow> net" where
  "connect_socket cfg bypassBoot n u =
     (let (s0, n1) = pool_get n u;
          s = sock_connect s0;
          gate = (\<not> bypassBoot \<and> wait_for_boot cfg (sock_url s) \<and> sock_status s = StatusPending);
          s' = (if gate then s\<lparr>sock_gated := True\<rparr> else s)
      in n1\<lparr>sockets := (sockets n1)(u \<mapsto> s'),
            io := io n1 @ [Connect u] @ (if gate then [BootTimer u boot_ms] else [])\<rparr>)"

definition getExecutor :: "config \<Rightarrow> net \<Rightarrow> url list \<Rightarrow> bool \<Rightarrow> target \<times> net" where
  "getExecutor cfg n urls bypassBoot =
     (let (t, n1) = choose_target cfg n (executor_urls cfg urls)
      in (t, foldl (connect_socket cfg bypassBoot) n1 (target_sockets t)))"

text \<open>
  The deferral predicate installed on a gated socket (line 110):
  \<open>socket.booted && socket.status !== READY\<close>. Sockets the code does not gate
  keep the library's own predicate, which this code does not change.
\<close>

definition shouldDeferWork :: "socket \<Rightarrow> bool" where
  "shouldDeferWork s = (sock_booted s \<and> sock_status s \<noteq> StatusReady)"

definition gate_defers :: "socket \<Rightarrow> bool" where
  "gate_defers s = (sock_gated s \<and> shouldDeferWork s)"

text \<open>The boot timer of line 114 fires: \<open>Object.assign(socket, {booted: true})\<close>.\<close>

definition boot_timer_fires :: "net \<Rightarrow> url \<Rightarrow> net" where
  "boot_timer_fires n u = (case sockets n u of
      None \<Rightarrow> n
    | Some s \<Rightarrow> n\<lparr>sockets := (sockets n)(u \<mapsto> s\<lparr>sock_booted := True\<rparr>)\<rparr>)"

subsection \<open>Authentication callbacks\<close>

text \<open>
  Lines 81--96. A challenge marks the relay unauthorized on the bus and calls the
  externally supplied handler if there is one. An acknowledgment clears the
  status (or reports \<open>forbidden\<close>); a good one calls \<open>pool.get(url)\<close> and sets
  \<open>booted\<close> on the pool object.
\<close>

definition onAuth :: "net \<Rightarrow> url \<Rightarrow> string \<Rightarrow> net" where
  "onAuth n u challenge =
     n\<lparr>bus := bus n @ [BusErrorSet u ''unauthorized''],
       io := io n @ (if auth_handler_set n then [AuthCallback u challenge] else [])\<rparr>"

definition onOk :: "net \<Rightarrow> url \<Rightarrow> bool \<Rightarrow> net" where
  "onOk n u ok =
     (let n1 = n\<lparr>bus := bus n @ [BusErrorClear u (if ok then None else Some ''forbidden'')]\<rparr>
      in if ok then (snd (pool_get n1 u))\<lparr>pool_booted := True\<rparr> else n1)"

subsection \<open>Session operations\<close>

text \<open>
  The transport reports status and error changes of a socket (spec section 6,
  \<open>status\<close> and \<open>error\<close>); everything else that changes the pool is an operation
  of this theory. \<open>session_step\<close> applies one of them, so that any interleaving of
  executor construction, authentication traffic and timers is a list of
  operations.
\<close>

definition set_status :: "net \<Rightarrow> url \<Rightarrow> sock_status \<Rightarrow> net" where
  "set_status n u st = (case sockets n u of
      None \<Rightarrow> n
    | Some s \<Rightarrow> n\<lparr>sockets := (sockets n)(u \<mapsto> s\<lparr>sock_status := st\<rparr>)\<rparr>)"

definition set_error :: "net \<Rightarrow> url \<Rightarrow> string option \<Rightarrow> net" where
  "set_error n u e = (case sockets n u of
      None \<Rightarrow> n
    | Some s \<Rightarrow> n\<lparr>sockets := (sockets n)(u \<mapsto> s\<lparr>sock_error := e\<rparr>)\<rparr>)"

datatype session_op =
    OpGetExecutor "url list" bool
  | OpAuth url string
  | OpOk url bool
  | OpBootTimer url
  | OpStatus url sock_status
  | OpError url "string option"
  | OpHasError url

fun session_step :: "config \<Rightarrow> net \<Rightarrow> session_op \<Rightarrow> net" where
  "session_step cfg n (OpGetExecutor urls b) = snd (getExecutor cfg n urls b)"
| "session_step cfg n (OpAuth u c) = onAuth n u c"
| "session_step cfg n (OpOk u ok) = onOk n u ok"
| "session_step cfg n (OpBootTimer u) = boot_timer_fires n u"
| "session_step cfg n (OpStatus u st) = set_status n u st"
| "session_step cfg n (OpError u e) = set_error n u e"
| "session_step cfg n (OpHasError u) = snd (relayHasError n u)"

definition session_run :: "config \<Rightarrow> net \<Rightarrow> session_op list \<Rightarrow> net" where
  "session_run cfg = foldl (session_step cfg)"

text \<open>Every socket of the pool is stored under its own URL.\<close>

definition pool_wf :: "net \<Rightarrow> bool" where
  "pool_wf n = (\<forall>u s. sockets n u = Some s \<longrightarrow> sock_url s = u)"

text \<open>
  The initial engine state of \<open>contributeState\<close> (lines 37--43): no auth handler,
  a fresh pool, an emitter with nothing emitted; and a configuration with one relay
  that asks for payment, used by the examples below.
\<close>

definition contributeState :: net where
  "contributeState = \<lparr>sockets = Map.empty, pool_booted = False, auth_handler_set = False, bus = [], io = []\<rparr>"

definition example_config :: config where
  "example_config = \<lparr>force_relays = [], count_relays = [], multiplextr_url = [],
     relay_info = (\<lambda>u. if u = ''wss://paid'' then Some \<lparr>payment_required = True, auth_required = False\<rparr> else None)\<rparr>"

subsection \<open>Lemmas on the pool and the executor\<close>

lemma pool_get_sockets:
  "sockets (snd (pool_get n u)) = (sockets n)(u \<mapsto> fst (pool_get n u))"
  by (auto simp: pool_get_def split: option.splits)

lemma pool_get_existing [simp]: "sockets n u = Some s \<Longrightarrow> pool_get n u = (s, n)"
  by (simp add: pool_get_def)

lemma pool_get_fresh [simp]:
  "sockets n u = None \<Longrightarrow> pool_get n u = (new_socket u, n\<lparr>sockets := (sockets n)(u \<mapsto> new_socket u)\<rparr>)"
  by (simp add: pool_get_def)

lemma pool_get_frame [simp]:
  "bus (snd (pool_get n u)) = bus n" "io (snd (pool_get n u)) = io n"
  "pool_booted (snd (pool_get n u)) = pool_booted n"
  "auth_handler_set (snd (pool_get n u)) = auth_handler_set n"
  by (auto simp: pool_get_def split: option.splits)

lemma dom_pool_get_all: "dom (sockets (pool_get_all n us)) = dom (sockets n) \<union> set us"
  by (induction n us rule: pool_get_all.induct) (auto simp: pool_get_sockets)

lemma pool_get_keeps: "sockets n u = Some s \<Longrightarrow> sockets (snd (pool_get n v)) u = Some s"
  by (auto simp: pool_get_def split: option.splits)

lemma pool_get_all_keeps:
  "sockets n u = Some s \<Longrightarrow> sockets (pool_get_all n us) u = Some s"
  by (induction n us rule: pool_get_all.induct) (simp_all add: pool_get_keeps)

lemma pool_get_all_frame [simp]:
  "io (pool_get_all n us) = io n" "bus (pool_get_all n us) = bus n"
  by (induction n us rule: pool_get_all.induct) simp_all

lemma connect_socket_sockets:
  "\<exists>s'. sockets (connect_socket cfg b n u) = (sockets n)(u \<mapsto> s') \<and> sock_url s' = sock_url (fst (pool_get n u))"
  by (auto simp: connect_socket_def pool_get_def sock_connect_def Let_def split: option.splits prod.splits)

lemma sock_connect_sel [simp]:
  "sock_url (sock_connect s) = sock_url s" "sock_booted (sock_connect s) = sock_booted s"
  "sock_gated (sock_connect s) = sock_gated s" "sock_error (sock_connect s) = sock_error s"
  by (simp_all add: sock_connect_def)

lemma connect_socket_io:
  "io (connect_socket cfg b n u) = io n @ Connect u #
     (if \<not> b \<and> wait_for_boot cfg (sock_url (fst (pool_get n u)))
         \<and> sock_status (sock_connect (fst (pool_get n u))) = StatusPending
      then [BootTimer u boot_ms] else [])"
  by (simp add: connect_socket_def Let_def case_prod_beta)

lemma connect_socket_frame [simp]:
  "bus (connect_socket cfg b n u) = bus n"
  "pool_booted (connect_socket cfg b n u) = pool_booted n"
  by (simp_all add: connect_socket_def Let_def case_prod_beta)

lemma dom_foldl_connect:
  "dom (sockets (foldl (connect_socket cfg b) n us)) = dom (sockets n) \<union> set us"
proof (induction us arbitrary: n)
  case Nil
  then show ?case by simp
next
  case (Cons u us)
  obtain s' where "sockets (connect_socket cfg b n u) = (sockets n)(u \<mapsto> s')"
    using connect_socket_sockets by blast
  with Cons.IH[of "connect_socket cfg b n u"] show ?case by auto
qed

lemma connects_foldl_connect:
  "Connect ` set us \<subseteq> set (io (foldl (connect_socket cfg b) n us))"
  "set (io n) \<subseteq> set (io (foldl (connect_socket cfg b) n us))"
proof (induction us arbitrary: n)
  case Nil
  { case 1 show ?case by simp }
  { case 2 show ?case by simp }
next
  case (Cons u us)
  { case 1
    have "Connect u \<in> set (io (connect_socket cfg b n u))" by (simp add: connect_socket_io)
    with Cons.IH(1)[of "connect_socket cfg b n u"] Cons.IH(2)[of "connect_socket cfg b n u"]
    show ?case by auto }
  { case 2
    have "set (io n) \<subseteq> set (io (connect_socket cfg b n u))" by (auto simp: connect_socket_io)
    with Cons.IH(2)[of "connect_socket cfg b n u"] show ?case by auto }
qed

lemma foldl_connect_frame [simp]:
  "bus (foldl (connect_socket cfg b) n us) = bus n"
  by (induction us arbitrary: n) simp_all


lemma pool_get_url: "pool_wf n \<Longrightarrow> sock_url (fst (pool_get n u)) = u"
  by (auto simp: pool_wf_def pool_get_def new_socket_def split: option.splits)

lemma pool_wf_pool_get: "pool_wf n \<Longrightarrow> pool_wf (snd (pool_get n u))"
  by (auto simp: pool_wf_def pool_get_sockets pool_get_url)

lemma pool_wf_pool_get_all: "pool_wf n \<Longrightarrow> pool_wf (pool_get_all n us)"
  by (induction n us rule: pool_get_all.induct) (simp_all add: pool_wf_pool_get)

lemma pool_wf_connect_socket:
  assumes "pool_wf n" shows "pool_wf (connect_socket cfg b n u)"
proof -
  obtain s' where s': "sockets (connect_socket cfg b n u) = (sockets n)(u \<mapsto> s')"
    and url: "sock_url s' = sock_url (fst (pool_get n u))"
    using connect_socket_sockets by blast
  have "sock_url s' = u" using url pool_get_url[OF assms] by simp
  with s' assms show ?thesis by (simp add: pool_wf_def)
qed

lemma pool_wf_foldl_connect: "pool_wf n \<Longrightarrow> pool_wf (foldl (connect_socket cfg b) n us)"
  by (induction us arbitrary: n) (simp_all add: pool_wf_connect_socket)

lemma choose_target_cases:
  "choose_target cfg n us =
     (let mux = multiplextr_url cfg in
      if mux \<noteq> [] \<and> (1 < length us \<or> mux \<in> dom (sockets n))
      then (if \<not> truthy_str (sock_error (fst (pool_get n mux)))
            then (Plex us mux, snd (pool_get n mux))
            else (Relays us, pool_get_all (snd (pool_get n mux)) us))
      else (Relays us, pool_get_all n us))"
  by (simp add: choose_target_def Let_def case_prod_beta)

lemma pool_wf_choose_target: "pool_wf n \<Longrightarrow> pool_wf (snd (choose_target cfg n us))"
  by (simp add: choose_target_cases Let_def pool_wf_pool_get pool_wf_pool_get_all)

lemma dom_choose_target: "dom (sockets n) \<subseteq> dom (sockets (snd (choose_target cfg n us)))"
  by (auto simp: choose_target_cases Let_def dom_pool_get_all pool_get_sockets)

text \<open>
  C28: After getExecutor every socket of the target is in the pool and has been
  connected, and no socket was removed from the pool.
\<close>

theorem getExecutor_connects:
  assumes "getExecutor cfg n urls b = (t, n')"
  shows "set (target_sockets t) \<subseteq> dom (sockets n')
    \<and> Connect ` set (target_sockets t) \<subseteq> set (io n')
    \<and> dom (sockets n) \<subseteq> dom (sockets n')"
proof -
  obtain n1 where ct: "choose_target cfg n (executor_urls cfg urls) = (t, n1)"
    and n': "n' = foldl (connect_socket cfg b) n1 (target_sockets t)"
    using assms by (auto simp: getExecutor_def split: prod.splits)
  have "dom (sockets n) \<subseteq> dom (sockets n1)"
    using dom_choose_target[of n cfg "executor_urls cfg urls"] ct by simp
  then show ?thesis
    using n' dom_foldl_connect connects_foldl_connect(1) by auto
qed

theorem getExecutor_connects_witness:
  "getExecutor example_config contributeState [''wss://a''] False =
     (Relays [''wss://a''], contributeState\<lparr>sockets := [''wss://a'' \<mapsto> (new_socket ''wss://a'')\<lparr>sock_status := StatusPending\<rparr>],
                                          io := [Connect ''wss://a'']\<rparr>)
   \<and> set (target_sockets (Relays [''wss://a''])) \<subseteq> dom [''wss://a'' \<mapsto> (new_socket ''wss://a'')\<lparr>sock_status := StatusPending\<rparr>]
   \<and> Connect ` set (target_sockets (Relays [''wss://a''])) \<subseteq> set [Connect ''wss://a'']
   \<and> dom (sockets contributeState) \<subseteq> dom [''wss://a'' \<mapsto> (new_socket ''wss://a'')\<lparr>sock_status := StatusPending\<rparr>]"
proof -
  have h: "getExecutor example_config contributeState [''wss://a''] False =
     (Relays [''wss://a''], contributeState\<lparr>sockets := [''wss://a'' \<mapsto> (new_socket ''wss://a'')\<lparr>sock_status := StatusPending\<rparr>],
                                          io := [Connect ''wss://a'']\<rparr>)"
    by (simp add: getExecutor_def choose_target_def executor_urls_def example_config_def contributeState_def
        pool_get_def connect_socket_def sock_connect_def wait_for_boot_def target_sockets_def Let_def new_socket_def)
  show ?thesis using h getExecutor_connects[OF h] by (simp add: contributeState_def)
qed

text \<open>
  C29: A fresh socket to a relay that requires payment or AUTH is gated and a boot timer
  is started, but the gate does not defer work before the timer; after the timer it
  defers work until the socket is ready.
\<close>

theorem boot_gate_opens_then_closes:
  assumes "sockets n u = None" "wait_for_boot cfg u" "\<not> b"
  shows "\<exists>s. sockets (connect_socket cfg b n u) u = Some s \<and> sock_gated s \<and> \<not> gate_defers s
     \<and> BootTimer u boot_ms \<in> set (io (connect_socket cfg b n u))
     \<and> (\<exists>s'. sockets (boot_timer_fires (connect_socket cfg b n u) u) u = Some s'
            \<and> gate_defers s' \<and> \<not> gate_defers (s'\<lparr>sock_status := StatusReady\<rparr>))"
  using assms
  by (simp add: connect_socket_def boot_timer_fires_def gate_defers_def shouldDeferWork_def
      new_socket_def sock_connect_def Let_def)

theorem boot_gate_opens_then_closes_witness:
  "sockets contributeState ''wss://paid'' = None \<and> wait_for_boot example_config ''wss://paid'' \<and> \<not> False
   \<and> (\<exists>s. sockets (connect_socket example_config False contributeState ''wss://paid'') ''wss://paid'' = Some s
     \<and> sock_gated s \<and> \<not> gate_defers s
     \<and> BootTimer ''wss://paid'' boot_ms \<in> set (io (connect_socket example_config False contributeState ''wss://paid''))
     \<and> (\<exists>s'. sockets (boot_timer_fires (connect_socket example_config False contributeState ''wss://paid'') ''wss://paid'') ''wss://paid'' = Some s'
            \<and> gate_defers s' \<and> \<not> gate_defers (s'\<lparr>sock_status := StatusReady\<rparr>)))"
proof -
  have h: "sockets contributeState ''wss://paid'' = None" "wait_for_boot example_config ''wss://paid''" "\<not> False"
    by (simp_all add: contributeState_def wait_for_boot_def example_config_def)
  show ?thesis using h boot_gate_opens_then_closes[OF h] by blast
qed

text \<open>
  C30: A good AUTH acknowledgment for a known socket sets booted on the pool object and
  clears the relay's error on the bus, but leaves every socket, and so its gate,
  untouched.
\<close>

theorem onOk_keeps_socket_gate:
  assumes "sockets n u = Some s"
  shows "sockets (onOk n u True) = sockets n \<and> pool_booted (onOk n u True)
    \<and> bus (onOk n u True) = bus n @ [BusErrorClear u None]"
  using assms by (simp add: onOk_def)


theorem onOk_keeps_socket_gate_witness:
  "sockets (contributeState\<lparr>sockets := [''wss://a'' \<mapsto> new_socket ''wss://a'']\<rparr>) ''wss://a'' = Some (new_socket ''wss://a'')
   \<and> sockets (onOk (contributeState\<lparr>sockets := [''wss://a'' \<mapsto> new_socket ''wss://a'']\<rparr>) ''wss://a'' True)
       = [''wss://a'' \<mapsto> new_socket ''wss://a'']
   \<and> pool_booted (onOk (contributeState\<lparr>sockets := [''wss://a'' \<mapsto> new_socket ''wss://a'']\<rparr>) ''wss://a'' True)
   \<and> \<not> sock_booted (new_socket ''wss://a'')"
proof -
  have h: "sockets (contributeState\<lparr>sockets := [''wss://a'' \<mapsto> new_socket ''wss://a'']\<rparr>) ''wss://a'' = Some (new_socket ''wss://a'')"
    by simp
  show ?thesis using h onOk_keeps_socket_gate[OF h] by (simp add: new_socket_def)
qed

lemma prefix_io_connect_socket: "prefix (io m) (io (connect_socket cfg b m u))"
  by (simp add: connect_socket_io)

lemma prefix_io_foldl_connect: "prefix (io m) (io (foldl (connect_socket cfg b) m us))"
  by (induction us arbitrary: m) (auto intro: prefix_order.trans[OF prefix_io_connect_socket])

lemma getExecutor_snd_frame:
  "prefix (io n) (io (snd (getExecutor cfg n urls b))) \<and> bus (snd (getExecutor cfg n urls b)) = bus n"
proof -
  obtain t n1 where ct: "choose_target cfg n (executor_urls cfg urls) = (t, n1)"
    by (cases "choose_target cfg n (executor_urls cfg urls)")
  have "io n1 = io n \<and> bus n1 = bus n"
    using ct by (auto simp: choose_target_cases Let_def split: if_splits)
  then show ?thesis using ct prefix_io_foldl_connect[of n1 cfg b "target_sockets t"]
    by (simp add: getExecutor_def)
qed

lemma pool_wf_getExecutor: "pool_wf n \<Longrightarrow> pool_wf (snd (getExecutor cfg n urls b))"
  by (simp add: getExecutor_def case_prod_beta pool_wf_choose_target pool_wf_foldl_connect)

lemma dom_getExecutor: "dom (sockets n) \<subseteq> dom (sockets (snd (getExecutor cfg n urls b)))"
  using dom_choose_target[of n cfg "executor_urls cfg urls"] dom_foldl_connect
  by (auto simp: getExecutor_def case_prod_beta)

end
