(* ===== verification/Urls.thy ===== *)
theory Urls
  imports Prelude
begin

text \<open>
  Relay URL normalisation and the deduplication that every coordinator applies to
  its relay list first: \<open>getUrls\<close> of \<open>src/engine/components/Network.ts\<close>, and
  \<open>normalizeRelayUrl\<close>, which lives in \<open>src/util/nostr\<close> (not part of the staged
  sources) and is modelled from the specification: lower case, no trailing slash.
  \<open>getUrls\<close> logs instead of failing; the log is returned as a list of messages.
\<close>

definition lower_char :: "char \<Rightarrow> char" where
  "lower_char c = (let n = of_char c :: nat in
     if 65 \<le> n \<and> n \<le> 90 then char_of (n + 32) else c)"

definition normalizeRelayUrl :: "url \<Rightarrow> url" where
  "normalizeRelayUrl u = rev (dropWhile (\<lambda>c. c = CHR ''/'') (rev (map lower_char u)))"

datatype log_msg =
    LogError string
  | LogWarn string

text \<open>
  \<open>getUrls\<close>: an empty relay list is logged as an error, a list that loses
  elements when normalised into a \<open>Set\<close> is logged as a warning, and the result is
  \<open>Array.from\<close> of that set: the normalised URLs in order of first occurrence.
\<close>

definition getUrls :: "(url \<Rightarrow> url) \<Rightarrow> url list \<Rightarrow> log_msg list \<times> url list" where
  "getUrls norm relays =
     (let urls = ord_set_of (map norm relays);
          log0 = (if length relays = 0 then [LogError ''Attempted to connect to zero urls''] else []);
          log1 = (if length urls \<noteq> length relays
                  then [LogWarn ''Attempted to connect to non-unique relays''] else [])
      in (log0 @ log1, urls))"

subsection \<open>Properties\<close>

lemma lower_char_idem: "lower_char (lower_char c) = lower_char c"
  by (auto simp: lower_char_def Let_def)

lemma map_lower_char_idem [simp]: "map lower_char (map lower_char u) = map lower_char u"
  by (simp add: lower_char_idem)

lemma normalizeRelayUrl_no_trailing_slash:
  "normalizeRelayUrl u \<noteq> [] \<Longrightarrow> last (normalizeRelayUrl u) \<noteq> CHR ''/''"
proof -
  let ?r = "dropWhile (\<lambda>c. c = CHR ''/'') (rev (map lower_char u))"
  assume ne: "normalizeRelayUrl u \<noteq> []"
  then have "?r \<noteq> []" by (simp add: normalizeRelayUrl_def)
  then have "hd ?r \<noteq> CHR ''/''" by (rule hd_dropWhile)
  with \<open>?r \<noteq> []\<close> show ?thesis by (simp add: normalizeRelayUrl_def last_rev)
qed

lemma dropWhile_idem [simp]: "dropWhile P (dropWhile P xs) = dropWhile P xs"
  by (induction xs) auto

lemma map_lower_char_rev_dropWhile:
  "map lower_char (rev (dropWhile (\<lambda>c. c = CHR ''/'') (rev (map lower_char u))))
   = rev (dropWhile (\<lambda>c. c = CHR ''/'') (rev (map lower_char u)))"
proof -
  have "\<forall>c \<in> set (map lower_char u). lower_char c = c"
    by (auto simp: lower_char_idem)
  then have "\<forall>c \<in> set (rev (dropWhile (\<lambda>c. c = CHR ''/'') (rev (map lower_char u)))).
               lower_char c = c"
    using set_dropWhileD by fastforce
  then show ?thesis by (auto intro: map_idI)
qed

lemma getUrls_urls: "snd (getUrls norm relays) = ord_set_of (map norm relays)"
  by (simp add: getUrls_def Let_def)

lemma getUrls_warn_iff:
  "LogWarn ''Attempted to connect to non-unique relays'' \<in> set (fst (getUrls norm relays))
   \<longleftrightarrow> \<not> distinct (map norm relays)"
proof -
  have "distinct xs \<longleftrightarrow> card (set xs) = length xs" for xs :: "url list"
    by (auto intro: card_distinct distinct_card)
  then have "length (ord_set_of (map norm relays)) = length relays \<longleftrightarrow> distinct (map norm relays)"
    by (simp add: length_ord_set_of)
  then show ?thesis by (auto simp: getUrls_def Let_def)
qed

lemma normalizeRelayUrl_idem: "normalizeRelayUrl (normalizeRelayUrl u) = normalizeRelayUrl u"
  unfolding normalizeRelayUrl_def map_lower_char_rev_dropWhile by simp

lemma getUrls_log:
  "fst (getUrls norm relays) = [] \<longleftrightarrow> relays \<noteq> [] \<and> distinct (map norm relays)"
proof -
  have "distinct xs \<longleftrightarrow> card (set xs) = length xs" for xs :: "url list"
    by (auto intro: card_distinct distinct_card)
  then show ?thesis by (auto simp: getUrls_def Let_def length_ord_set_of)
qed

text \<open>
  C31: GetUrls returns the normalised relays without repetition in order of first
  occurrence, and logs nothing exactly when the list is non-empty and normalises without
  collisions.
\<close>

theorem getUrls_spec:
  "distinct (snd (getUrls norm relays))
   \<and> set (snd (getUrls norm relays)) = norm ` set relays
   \<and> snd (getUrls norm relays) = rev (remdups (rev (map norm relays)))
   \<and> (fst (getUrls norm relays) = [] \<longleftrightarrow> relays \<noteq> [] \<and> distinct (map norm relays))"
  by (simp add: getUrls_urls getUrls_log ord_set_of_eq)

lemma getUrls_normalized_idem:
  "getUrls normalizeRelayUrl (map normalizeRelayUrl relays) = getUrls normalizeRelayUrl relays"
  by (simp add: getUrls_def comp_def normalizeRelayUrl_idem)

lemma lower_char_slash: "lower_char (CHR ''/'') = CHR ''/''"
  by (simp add: lower_char_def)

lemma dropWhile_replicate: "dropWhile (\<lambda>c. c = x) (replicate k x @ xs) = dropWhile (\<lambda>c. c = x) xs"
  by (induction k) simp_all

lemma normalizeRelayUrl_trailing_slashes:
  "normalizeRelayUrl (v @ replicate k (CHR ''/'')) = normalizeRelayUrl v"
proof -
  have "rev (map lower_char (v @ replicate k (CHR ''/''))) = replicate k (CHR ''/'') @ rev (map lower_char v)"
    by (simp add: lower_char_slash)
  then show ?thesis by (simp only: normalizeRelayUrl_def dropWhile_replicate)
qed

text \<open>
  C32: Two spellings of one relay that differ only in letter case and in trailing
  slashes become one lowercased URL without trailing slashes, and getUrls warns that the
  relays were not unique.
\<close>

theorem getUrls_merges_variants:
  assumes "map lower_char u = map lower_char v"
  shows "getUrls normalizeRelayUrl [u, v @ replicate k (CHR ''/'')] =
       ([LogWarn ''Attempted to connect to non-unique relays''], [normalizeRelayUrl u])"
proof -
  have "normalizeRelayUrl (v @ replicate k (CHR ''/'')) = normalizeRelayUrl v"
    by (rule normalizeRelayUrl_trailing_slashes)
  also have "\<dots> = normalizeRelayUrl u" using assms by (simp add: normalizeRelayUrl_def)
  finally show ?thesis by (simp add: getUrls_def ord_set_of_def ord_insert_def)
qed

theorem getUrls_merges_variants_witness:
  "getUrls normalizeRelayUrl [''wss://R.Io'', ''wss://r.IO'' @ replicate 2 (CHR ''/'')] =
       ([LogWarn ''Attempted to connect to non-unique relays''], [''wss://r.io''])"
proof -
  have h: "map lower_char ''wss://R.Io'' = map lower_char ''wss://r.IO''"
    by code_simp
  have n: "normalizeRelayUrl ''wss://R.Io'' = ''wss://r.io''"
    by code_simp
  show ?thesis using getUrls_merges_variants[OF h, of 2] n by simp
qed

end
