(* ===== verification/Subscribe.thy ===== *)
theory Subscribe
  imports Urls Session
begin

text \<open>
  The subscription coordinator: \<open>subscribe\<close> of
  \<open>src/engine/components/Network.ts\<close> (lines 184--272). Its state is the dedup
  table \<open>seen\<close> (event id to the relays that delivered it), the set \<open>eose\<close> of
  relays that reported end of stored events, the \<open>Subscription\<close> handle's closed
  flag, whether the executor's stream is still subscribed, and the timer. What the
  handlers do to the outside (bus messages, the ingestion queue, the caller's
  callbacks, teardown) is an effect log. Signature verification and filter
  matching (nostr-tools) are an interface, \<open>sub_ext\<close>, over the filter type
  \<open>'f\<close>: verification may throw, which is \<open>None\<close>.

  The code stores the same array object as \<open>event.seen_on\<close> and as the table
  entry, so later pushes are visible through the delivered event; the model keeps
  the table entry as the authoritative \<open>seen_on\<close>.
\<close>

datatype sub_effect =
    SubBus bus_event
  | QueuePush event
  | OnEvent event
  | OnEose url
  | SubUnsubscribe
  | SubCleanup
  | ConsoleError

record 'f sub_ext =
  verifySignature :: "event \<Rightarrow> bool option"
  matchFilters :: "'f list \<Rightarrow> event \<Rightarrow> bool"

record 'f sub_state =
  sub_urls :: "url list"
  sub_relays_len :: nat
  sub_filters :: "'f list"
  seen :: "event_id \<rightharpoonup> url list"
  eose :: "url list"
  sub_closed :: bool
  sub_live :: bool
  sub_timeout :: "nat option"
  sub_timer_armed :: bool
  sub_start :: nat
  shouldProcess :: bool
  has_onEvent :: bool
  has_onEose :: bool
  sub_out :: "sub_effect list"

datatype sub_input = SubEvent url event | SubEose url nat | SubTimer | SubClose

datatype 'f plural = One 'f | Many "'f list"

text \<open>\<open>ensurePlural\<close> of hurdak: a single filter becomes a one-element list.\<close>

definition ensurePlural :: "'f plural \<Rightarrow> 'f list" where
  "ensurePlural p = (case p of One f \<Rightarrow> [f] | Many fs \<Rightarrow> fs)"

text \<open>
  The state after line 269: the bus has seen \<open>sub:open\<close>, the timer is armed when
  the timeout is truthy, the stream is subscribed. \<open>relays\<close> is the caller's list,
  whose length the EOSE fast path compares with (line 265).
\<close>

definition subscribe_init :: "url list \<Rightarrow> url list \<Rightarrow> 'f list \<Rightarrow> nat option \<Rightarrow> bool \<Rightarrow> bool \<Rightarrow> bool
    \<Rightarrow> nat \<Rightarrow> 'f sub_state" where
  "subscribe_init relays urls filters timeout process onEvent onEose now =
     \<lparr>sub_urls = urls, sub_relays_len = length relays, sub_filters = filters, seen = Map.empty,
      eose = [], sub_closed = False, sub_live = True, sub_timeout = timeout,
      sub_timer_armed = truthy_nat timeout, sub_start = now, shouldProcess = process,
      has_onEvent = onEvent, has_onEose = onEose, sub_out = [SubBus (BusSubOpen urls)]\<rparr>"

text \<open>
  \<open>subscription.close()\<close>: the \<open>Subscription\<close> class (\<open>src/engine/util\<close>, not
  staged) is modelled from the specification as idempotent and one-way; its
  \<open>close\<close> listener (lines 204--208) unsubscribes, cleans the target up and
  announces \<open>sub:close\<close>.
\<close>

definition sub_close :: "'f sub_state \<Rightarrow> 'f sub_state" where
  "sub_close s = (if sub_closed s then s
     else s\<lparr>sub_closed := True, sub_live := False,
            sub_out := sub_out s @ [SubUnsubscribe, SubCleanup, SubBus (BusSubClose (sub_urls s))]\<rparr>)"

text \<open>
  The \<open>onEvent\<close> handler (lines 215--254). A known id only gains the relay in its
  \<open>seen_on\<close> list. A new id is stamped and recorded in the table before it is
  verified; an event that fails verification or matches no filter is dropped.
\<close>

definition stamp :: "url \<Rightarrow> event \<Rightarrow> event" where
  "stamp u e = e\<lparr>ev_seen_on := [u],
                  ev_content := Some (case ev_content e of None \<Rightarrow> [] | Some c \<Rightarrow> c)\<rparr>"

definition deliver :: "'f sub_state \<Rightarrow> url \<Rightarrow> event \<Rightarrow> sub_effect list" where
  "deliver s u e = [SubBus (BusEvent u e)] @ (if shouldProcess s then [QueuePush e] else [])
                   @ (if has_onEvent s then [OnEvent e] else [])"

definition on_event :: "'f sub_ext \<Rightarrow> 'f sub_state \<Rightarrow> url \<Rightarrow> event \<Rightarrow> 'f sub_state" where
  "on_event x s u e =
     (case seen s (ev_id e) of
        Some so \<Rightarrow> s\<lparr>seen := (seen s)(ev_id e \<mapsto> ord_insert so u)\<rparr>
      | None \<Rightarrow>
          (let e' = stamp u e;
               s1 = s\<lparr>seen := (seen s)(ev_id e \<mapsto> [u])\<rparr>
           in case verifySignature x e' of
                None \<Rightarrow> s1\<lparr>sub_out := sub_out s1 @ [ConsoleError]\<rparr>
              | Some False \<Rightarrow> s1
              | Some True \<Rightarrow>
                  (if \<not> matchFilters x (sub_filters s) e' then s1
                   else s1\<lparr>sub_out := sub_out s1 @ deliver s1 u e'\<rparr>)))"

text \<open>
  The \<open>onEose\<close> handler (lines 255--268): forward to the caller, report timing on
  the first EOSE of a relay, record the relay, and close early when a timeout was
  given and the number of relays that reported equals \<open>relays.length\<close>.
\<close>

definition eose_record :: "'f sub_state \<Rightarrow> url \<Rightarrow> nat \<Rightarrow> 'f sub_state" where
  "eose_record s u now =
     s\<lparr>sub_out := sub_out s @ (if has_onEose s then [OnEose u] else [])
                 @ (if u \<notin> set (eose s) then [SubBus (BusEose u (now - sub_start s))] else []),
       eose := ord_insert (eose s) u\<rparr>"

definition on_eose :: "'f sub_state \<Rightarrow> url \<Rightarrow> nat \<Rightarrow> 'f sub_state" where
  "on_eose s u now =
     (let s1 = eose_record s u now
      in if truthy_nat (sub_timeout s1) \<and> length (eose s1) = sub_relays_len s1
         then sub_close s1 else s1)"

fun sub_step :: "'f sub_ext \<Rightarrow> 'f sub_state \<Rightarrow> sub_input \<Rightarrow> 'f sub_state" where
  "sub_step x s (SubEvent u e) = (if sub_live s then on_event x s u e else s)"
| "sub_step x s (SubEose u now) = (if sub_live s then on_eose s u now else s)"
| "sub_step x s SubTimer =
     (if sub_timer_armed s then sub_close (s\<lparr>sub_timer_armed := False\<rparr>) else s)"
| "sub_step x s SubClose = sub_close s"

definition sub_run :: "'f sub_ext \<Rightarrow> 'f sub_state \<Rightarrow> sub_input list \<Rightarrow> 'f sub_state" where
  "sub_run x = foldl (sub_step x)"

text \<open>The whole of \<open>subscribe\<close> up to the returned handle.\<close>

definition subscribe :: "config \<Rightarrow> net \<Rightarrow> url list \<Rightarrow> 'f plural \<Rightarrow> nat option \<Rightarrow> bool \<Rightarrow> bool
    \<Rightarrow> bool \<Rightarrow> nat \<Rightarrow> log_msg list \<times> target \<times> net \<times> 'f sub_state" where
  "subscribe cfg n relays flt timeout process onEvent onEose now =
     (let (log, urls) = getUrls normalizeRelayUrl relays;
          (t, n1) = getExecutor cfg n urls False
      in (log, t, n1, subscribe_init relays urls (ensurePlural flt) timeout process onEvent onEose now))"


definition delivered_from :: "event_id \<Rightarrow> (url \<times> event) list \<Rightarrow> url list" where
  "delivered_from i ds = map fst (filter (\<lambda>(u, e). ev_id e = i) ds)"

definition close_inv :: "'f sub_state \<Rightarrow> bool" where
  "close_inv s = ((sub_closed s \<longleftrightarrow> \<not> sub_live s)
     \<and> occurrences (sub_out s) SubCleanup = (if sub_closed s then 1 else 0)
     \<and> occurrences (sub_out s) SubUnsubscribe = (if sub_closed s then 1 else 0)
     \<and> (sub_closed s \<longrightarrow> SubBus (BusSubClose (sub_urls s)) \<in> set (sub_out s))
     \<and> (truthy_nat (sub_timeout s) \<longrightarrow> sub_timer_armed s \<or> sub_closed s))"

datatype delivery_kind = KBus | KQueue | KCallback

fun delivered_event :: "delivery_kind \<Rightarrow> sub_effect \<Rightarrow> event option" where
  "delivered_event KBus (SubBus (BusEvent u e)) = Some e"
| "delivered_event KQueue (QueuePush e) = Some e"
| "delivered_event KCallback (OnEvent e) = Some e"
| "delivered_event k x = None"

definition deliveries_of :: "delivery_kind \<Rightarrow> event_id \<Rightarrow> sub_effect list \<Rightarrow> nat" where
  "deliveries_of k i out = length (filter (\<lambda>x. map_option ev_id (delivered_event k x) = Some i) out)"

definition deliver_inv :: "'f sub_ext \<Rightarrow> 'f sub_state \<Rightarrow> bool" where
  "deliver_inv x s = ((\<forall>k y e. y \<in> set (sub_out s) \<longrightarrow> delivered_event k y = Some e \<longrightarrow>
        ev_id e \<in> dom (seen s) \<and> verifySignature x e = Some True \<and> matchFilters x (sub_filters s) e)
     \<and> (\<forall>k i. deliveries_of k i (sub_out s) \<le> 1))"

definition silent :: "sub_effect list \<Rightarrow> bool" where
  "silent es = (\<forall>y \<in> set es. \<forall>k. delivered_event k y = None)"

definition eose_from :: "url list \<Rightarrow> sub_input \<Rightarrow> bool" where
  "eose_from urls i = (case i of SubEose u t \<Rightarrow> u \<in> set urls | _ \<Rightarrow> True)"

definition eose_inv :: "'f sub_state \<Rightarrow> bool" where
  "eose_inv s = (set (eose s) \<subseteq> set (sub_urls s) \<and> distinct (eose s)
     \<and> (sub_closed s \<longrightarrow> \<not> sub_live s)
     \<and> (sub_live s \<and> truthy_nat (sub_timeout s) \<and> eose s \<noteq> [] \<longrightarrow> length (eose s) \<noteq> sub_relays_len s))"

definition eose_senders :: "sub_input list \<Rightarrow> url set" where
  "eose_senders inps = {u. \<exists>t. SubEose u t \<in> set inps}"

text \<open>An example verifier (signature \<open>sig\<close> is valid), filters as lists of kinds, and an event, used by the examples below.\<close>

definition example_ext :: "nat sub_ext" where
  "example_ext = \<lparr>verifySignature = (\<lambda>e. Some (ev_sig e = ''sig'')), matchFilters = (\<lambda>fs e. ev_kind e \<in> set fs)\<rparr>"

definition example_event :: event where
  "example_event = \<lparr>ev_id = ''e1'', ev_pubkey = ''pk'', ev_created_at = 0, ev_kind = 1, ev_tags = [],
     ev_content = None, ev_sig = ''sig'', ev_seen_on = []\<rparr>"

text \<open>How often the bus reported a relay's EOSE timing, and the invariant that it did so exactly for the relays recorded in the EOSE set.\<close>

definition eose_reports :: "url \<Rightarrow> sub_effect list \<Rightarrow> nat" where
  "eose_reports u out = length (filter (\<lambda>y. case y of SubBus (BusEose v t) \<Rightarrow> v = u | _ \<Rightarrow> False) out)"

definition eose_report_inv :: "'f sub_state \<Rightarrow> bool" where
  "eose_report_inv s = (\<forall>u. eose_reports u (sub_out s) = (if u \<in> set (eose s) then 1 else 0))"

text \<open>
  Well-formedness of a subscription's state when the transport only reports relays of the
  target: every \<open>seen_on\<close> list is non-empty, without repetition and within the URLs,
  and so is the EOSE set.
\<close>

fun input_from :: "url list \<Rightarrow> sub_input \<Rightarrow> bool" where
  "input_from urls (SubEvent u e) = (u \<in> set urls)"
| "input_from urls (SubEose u t) = (u \<in> set urls)"
| "input_from urls SubTimer = True"
| "input_from urls SubClose = True"

definition sub_wf :: "'f sub_state \<Rightarrow> bool" where
  "sub_wf s = ((\<forall>i so. seen s i = Some so \<longrightarrow> so \<noteq> [] \<and> distinct so \<and> set so \<subseteq> set (sub_urls s))
     \<and> distinct (eose s) \<and> set (eose s) \<subseteq> set (sub_urls s))"



subsection \<open>Lemmas\<close>


lemma sub_run_simps [simp]:
  "sub_run x s [] = s" "sub_run x s (i # inps) = sub_run x (sub_step x s i) inps"
  by (simp_all add: sub_run_def)

lemma sub_close_frame [simp]:
  "sub_urls (sub_close s) = sub_urls s" "sub_relays_len (sub_close s) = sub_relays_len s"
  "sub_filters (sub_close s) = sub_filters s" "seen (sub_close s) = seen s"
  "eose (sub_close s) = eose s" "sub_timeout (sub_close s) = sub_timeout s"
  "sub_timer_armed (sub_close s) = sub_timer_armed s" "sub_closed (sub_close s)"
  "\<not> sub_live (sub_close s) \<longleftrightarrow> \<not> sub_live s \<or> \<not> sub_closed s"
  by (simp_all add: sub_close_def)

lemma on_event_frame [simp]:
  "sub_urls (on_event x s u e) = sub_urls s" "sub_relays_len (on_event x s u e) = sub_relays_len s"
  "sub_filters (on_event x s u e) = sub_filters s" "eose (on_event x s u e) = eose s"
  "sub_timeout (on_event x s u e) = sub_timeout s" "sub_timer_armed (on_event x s u e) = sub_timer_armed s"
  "sub_closed (on_event x s u e) = sub_closed s" "sub_live (on_event x s u e) = sub_live s"
  "shouldProcess (on_event x s u e) = shouldProcess s" "has_onEvent (on_event x s u e) = has_onEvent s"
  by (simp_all add: on_event_def Let_def split: option.splits bool.splits)

lemma seen_on_event:
  "seen (on_event x s u e) = (seen s)(ev_id e \<mapsto>
     (case seen s (ev_id e) of None \<Rightarrow> [u] | Some so \<Rightarrow> ord_insert so u))"
  by (simp add: on_event_def Let_def split: option.splits bool.splits)

lemma on_eose_frame [simp]:
  "sub_urls (on_eose s u t) = sub_urls s" "sub_relays_len (on_eose s u t) = sub_relays_len s"
  "sub_filters (on_eose s u t) = sub_filters s" "seen (on_eose s u t) = seen s"
  "sub_timeout (on_eose s u t) = sub_timeout s" "sub_timer_armed (on_eose s u t) = sub_timer_armed s"
  "eose (on_eose s u t) = ord_insert (eose s) u"
  by (simp_all add: on_eose_def eose_record_def Let_def)

lemma sub_step_frame [simp]:
  "sub_urls (sub_step x s i) = sub_urls s" "sub_relays_len (sub_step x s i) = sub_relays_len s"
  "sub_filters (sub_step x s i) = sub_filters s" "sub_timeout (sub_step x s i) = sub_timeout s"
  by (cases i; simp)+

lemma sub_run_frame [simp]:
  "sub_urls (sub_run x s inps) = sub_urls s" "sub_relays_len (sub_run x s inps) = sub_relays_len s"
  "sub_filters (sub_run x s inps) = sub_filters s" "sub_timeout (sub_run x s inps) = sub_timeout s"
  by (induction inps arbitrary: s; simp)+

lemma seen_run_events:
  "sub_live s \<Longrightarrow> seen (sub_run x s (map (\<lambda>(u, e). SubEvent u e) ds)) i =
     (case seen s i of
        None \<Rightarrow> (if delivered_from i ds = [] then None else Some (ord_set_of (delivered_from i ds)))
      | Some so \<Rightarrow> Some (foldl ord_insert so (delivered_from i ds)))"
proof (induction ds arbitrary: s)
  case Nil
  then show ?case by (simp add: delivered_from_def split: option.splits)
next
  case (Cons d ds)
  obtain u e where d: "d = (u, e)" by (cases d)
  have live: "sub_live (on_event x s u e)" using Cons.prems by simp
  show ?case
    using Cons.IH[OF live] Cons.prems d
    by (auto simp: seen_on_event delivered_from_def ord_set_of_def ord_insert_def
        split: option.splits)
qed

text \<open>
  C2: After any sequence of events the seen table maps an event id to the relays that
  sent it, without repetition and in order of first arrival, and knows no other id.
\<close>

theorem subscribe_seen_on:
  "seen (sub_run x (subscribe_init relays urls fs t p oe oo now) (map (\<lambda>(u, e). SubEvent u e) ds)) i =
     (if delivered_from i ds = [] then None else Some (ord_set_of (delivered_from i ds)))"
  by (simp add: seen_run_events subscribe_init_def)

lemma on_event_out: "\<exists>es. sub_out (on_event x s u e) = sub_out s @ es \<and> SubCleanup \<notin> set es
   \<and> SubUnsubscribe \<notin> set es"
  by (auto simp: on_event_def Let_def deliver_def split: option.splits bool.splits)

lemma close_inv_close: "close_inv s \<Longrightarrow> close_inv (sub_close s)"
  by (auto simp: close_inv_def sub_close_def)

lemma close_inv_on_event: "close_inv s \<Longrightarrow> close_inv (on_event x s u e)"
proof -
  assume inv: "close_inv s"
  obtain es where o: "sub_out (on_event x s u e) = sub_out s @ es" "SubCleanup \<notin> set es"
    "SubUnsubscribe \<notin> set es" using on_event_out by blast
  then have "occurrences es SubCleanup = 0" "occurrences es SubUnsubscribe = 0"
    by (simp_all add: count_list_0_iff)
  with inv o show ?thesis by (auto simp: close_inv_def)
qed

lemma close_inv_on_eose:
  assumes "close_inv s" "sub_live s" shows "close_inv (on_eose s u t)"
proof -
  have c: "close_inv (eose_record s u t)" using assms by (auto simp: close_inv_def eose_record_def)
  then show ?thesis using close_inv_close[OF c] by (simp add: on_eose_def Let_def)
qed

lemma close_inv_step: "close_inv s \<Longrightarrow> close_inv (sub_step x s i)"
proof (cases i)
  case SubTimer
  assume inv: "close_inv s"
  show ?thesis
  proof (cases "sub_timer_armed s")
    case True
    have "close_inv (sub_close (s\<lparr>sub_timer_armed := False\<rparr>))"
      using inv by (auto simp: close_inv_def sub_close_def)
    with True SubTimer show ?thesis by simp
  next
    case False
    with inv SubTimer show ?thesis by simp
  qed
qed (auto simp: close_inv_on_event close_inv_on_eose close_inv_close)

lemma close_inv_run: "close_inv s \<Longrightarrow> close_inv (sub_run x s inps)"
  by (induction inps arbitrary: s) (simp_all add: close_inv_step)

lemma close_inv_init: "close_inv (subscribe_init relays urls fs t p oe oo now)"
  by (simp add: close_inv_def subscribe_init_def)

text \<open>
  C19: In every run a subscription is closed exactly when it no longer receives, and has
  then unsubscribed and cleaned up exactly once and announced sub:close; while open it
  has done neither.
\<close>

theorem subscribe_close_once:
  "close_inv (sub_run x (subscribe_init relays urls fs t p oe oo now) inps)"
  by (rule close_inv_run[OF close_inv_init])

theorem subscribe_close_once_witness:
  "close_inv (sub_run example_ext (subscribe_init [''wss://a'', ''wss://b''] [''wss://a'', ''wss://b''] [1::nat] (Some 5) True True True 0)
      [SubEose ''wss://a'' 1, SubTimer])
   \<and> sub_closed (sub_run example_ext (subscribe_init [''wss://a'', ''wss://b''] [''wss://a'', ''wss://b''] [1::nat] (Some 5) True True True 0)
      [SubEose ''wss://a'' 1, SubTimer])"
proof -
  have "sub_closed (sub_run example_ext (subscribe_init [''wss://a'', ''wss://b''] [''wss://a'', ''wss://b''] [1::nat] (Some 5) True True True 0)
      [SubEose ''wss://a'' 1, SubTimer])"
    by (simp add: subscribe_init_def on_eose_def eose_record_def sub_close_def Let_def ord_insert_def)
  then show ?thesis using subscribe_close_once by blast
qed

lemma delivered_event_other [simp]:
  "delivered_event k (OnEose u) = None" "delivered_event k SubUnsubscribe = None"
  "delivered_event k SubCleanup = None" "delivered_event k ConsoleError = None"
  "delivered_event k (SubBus (BusSubClose us)) = None" "delivered_event k (SubBus (BusSubOpen us)) = None"
  "delivered_event k (SubBus (BusEose u n)) = None"
  by (cases k; simp)+

lemma deliveries_of_append [simp]:
  "deliveries_of k i (xs @ ys) = deliveries_of k i xs + deliveries_of k i ys"
  by (simp add: deliveries_of_def)

lemma deliveries_of_silent: "silent es \<Longrightarrow> deliveries_of k i es = 0"
  by (auto simp: deliveries_of_def silent_def filter_empty_conv)

lemma deliver_inv_silent:
  assumes "deliver_inv x s" "silent es" "dom (seen s) \<subseteq> dom (seen s')"
    "sub_filters s' = sub_filters s" "sub_out s' = sub_out s @ es"
  shows "deliver_inv x s'"
proof -
  have "ev_id e \<in> dom (seen s') \<and> verifySignature x e = Some True \<and> matchFilters x (sub_filters s') e"
    if "y \<in> set (sub_out s')" "delivered_event k y = Some e" for k y e
  proof -
    have "y \<notin> set es" using assms(2) that(2) by (auto simp: silent_def)
    then have "y \<in> set (sub_out s)" using that(1) assms(5) by simp
    then have "ev_id e \<in> dom (seen s) \<and> verifySignature x e = Some True \<and> matchFilters x (sub_filters s) e"
      using assms(1) that(2) unfolding deliver_inv_def by blast
    then show ?thesis using assms(3,4) by auto
  qed
  moreover have "deliveries_of k i (sub_out s') \<le> 1" for k i
    using assms(1,5) deliveries_of_silent[OF assms(2)] by (simp add: deliver_inv_def)
  ultimately show ?thesis by (simp add: deliver_inv_def)
qed

lemma stamp_id [simp]: "ev_id (stamp u e) = ev_id e"
  by (simp add: stamp_def)

lemma deliveries_of_deliver: "deliveries_of k i (deliver s u e) \<le> 1"
  by (cases k) (simp_all add: deliver_def deliveries_of_def)

lemma delivered_deliver: "y \<in> set (deliver s u e) \<Longrightarrow> delivered_event k y = Some e' \<Longrightarrow> e' = e"
  by (cases k) (auto simp: deliver_def)

lemma fresh_no_deliveries:
  "deliver_inv x s \<Longrightarrow> ev_id e \<notin> dom (seen s) \<Longrightarrow> deliveries_of k (ev_id e) (sub_out s) = 0"
  unfolding deliver_inv_def deliveries_of_def
  by (fastforce simp: filter_empty_conv)

lemma on_event_known:
  "seen s (ev_id e) = Some so \<Longrightarrow> on_event x s u e = s\<lparr>seen := (seen s)(ev_id e \<mapsto> ord_insert so u)\<rparr>"
  by (simp add: on_event_def)

lemma on_event_accept:
  "seen s (ev_id e) = None \<Longrightarrow> verifySignature x (stamp u e) = Some True
   \<Longrightarrow> matchFilters x (sub_filters s) (stamp u e)
   \<Longrightarrow> on_event x s u e = s\<lparr>seen := (seen s)(ev_id e \<mapsto> [u]),
         sub_out := sub_out s @ deliver (s\<lparr>seen := (seen s)(ev_id e \<mapsto> [u])\<rparr>) u (stamp u e)\<rparr>"
  by (simp add: on_event_def Let_def)

lemma on_event_error:
  "seen s (ev_id e) = None \<Longrightarrow> verifySignature x (stamp u e) = None \<Longrightarrow>
   on_event x s u e = s\<lparr>seen := (seen s)(ev_id e \<mapsto> [u]), sub_out := sub_out s @ [ConsoleError]\<rparr>"
  by (simp add: on_event_def Let_def)

lemma on_event_drop:
  "seen s (ev_id e) = None \<Longrightarrow> verifySignature x (stamp u e) = Some b \<Longrightarrow>
   \<not> (b \<and> matchFilters x (sub_filters s) (stamp u e)) \<Longrightarrow>
   on_event x s u e = s\<lparr>seen := (seen s)(ev_id e \<mapsto> [u])\<rparr>"
  by (cases b) (simp_all add: on_event_def Let_def)

lemma deliveries_of_deliver_other:
  "i \<noteq> ev_id e \<Longrightarrow> deliveries_of k i (deliver s u e) = 0"
  by (cases k) (simp_all add: deliver_def deliveries_of_def)

lemma deliver_inv_accept:
  assumes inv: "deliver_inv x s" and fresh: "seen s (ev_id e) = None"
    and ok: "verifySignature x e' = Some True" "matchFilters x (sub_filters s) e'"
    and id: "ev_id e' = ev_id e"
  shows "deliver_inv x (s\<lparr>seen := (seen s)(ev_id e \<mapsto> [u]), sub_out := sub_out s @ deliver s1 u e'\<rparr>)"
proof -
  have cnt: "deliveries_of k i (sub_out s) + deliveries_of k i (deliver s1 u e') \<le> 1" for k i
  proof (cases "i = ev_id e")
    case True
    have "deliveries_of k (ev_id e) (sub_out s) = 0"
      using fresh_no_deliveries[OF inv, of e] fresh by (simp add: domIff)
    then show ?thesis using True id deliveries_of_deliver[of k i s1 u e'] by simp
  next
    case False
    then show ?thesis using inv id deliveries_of_deliver_other[of i e' k s1 u]
      by (simp add: deliver_inv_def)
  qed
  have del: "ev_id e'' \<in> dom ((seen s)(ev_id e \<mapsto> [u])) \<and> verifySignature x e'' = Some True
        \<and> matchFilters x (sub_filters s) e''"
    if y: "y \<in> set (sub_out s @ deliver s1 u e')" and d: "delivered_event k y = Some e''" for k y e''
  proof (cases "y \<in> set (sub_out s)")
    case True
    then show ?thesis using inv d unfolding deliver_inv_def by auto
  next
    case False
    then have "e'' = e'" using y d delivered_deliver by fastforce
    then show ?thesis using ok id by simp
  qed
  show ?thesis unfolding deliver_inv_def using cnt del by simp
qed

lemma deliver_inv_on_event:
  assumes inv: "deliver_inv x s" shows "deliver_inv x (on_event x s u e)"
proof (cases "seen s (ev_id e)")
  case (Some so)
  have "deliver_inv x (s\<lparr>seen := (seen s)(ev_id e \<mapsto> ord_insert so u)\<rparr>)"
    by (rule deliver_inv_silent[OF inv, where es = "[]"]) (auto simp: silent_def)
  then show ?thesis using on_event_known[OF Some] by simp
next
  case None
  let ?s1 = "s\<lparr>seen := (seen s)(ev_id e \<mapsto> [u])\<rparr>"
  show ?thesis
  proof (cases "verifySignature x (stamp u e) = Some True \<and> matchFilters x (sub_filters s) (stamp u e)")
    case True
    have "deliver_inv x (s\<lparr>seen := (seen s)(ev_id e \<mapsto> [u]),
        sub_out := sub_out s @ deliver ?s1 u (stamp u e)\<rparr>)"
      by (rule deliver_inv_accept[OF inv None]) (use True in simp_all)
    then show ?thesis using on_event_accept[OF None] True by simp
  next
    case False
    have base: "deliver_inv x ?s1"
      by (rule deliver_inv_silent[OF inv, where es = "[]"]) (auto simp: silent_def)
    have err: "deliver_inv x (?s1\<lparr>sub_out := sub_out s @ [ConsoleError]\<rparr>)"
      by (rule deliver_inv_silent[OF base]) (simp_all add: silent_def)
    show ?thesis
    proof (cases "verifySignature x (stamp u e)")
      case None
      with err show ?thesis using on_event_error[OF \<open>seen s (ev_id e) = None\<close>] by simp
    next
      case (Some b)
      then have "\<not> (b \<and> matchFilters x (sub_filters s) (stamp u e))" using False by auto
      with base Some show ?thesis using on_event_drop[OF \<open>seen s (ev_id e) = None\<close>] by simp
    qed
  qed
qed


lemma sub_close_out: "sub_out (sub_close s) = sub_out s \<or>
    sub_out (sub_close s) = sub_out s @ [SubUnsubscribe, SubCleanup, SubBus (BusSubClose (sub_urls s))]"
  by (simp add: sub_close_def)

lemma deliver_inv_close: "deliver_inv x s \<Longrightarrow> deliver_inv x (sub_close s)"
proof (cases "sub_closed s")
  case True
  assume "deliver_inv x s" with True show ?thesis by (simp add: sub_close_def)
next
  case False
  assume inv: "deliver_inv x s"
  show ?thesis
    by (rule deliver_inv_silent[OF inv, where es = "[SubUnsubscribe, SubCleanup, SubBus (BusSubClose (sub_urls s))]"])
       (use False in \<open>simp_all add: silent_def sub_close_def\<close>)
qed

lemma deliver_inv_eose_record: "deliver_inv x s \<Longrightarrow> deliver_inv x (eose_record s u t)"
  by (rule deliver_inv_silent[where es = "(if has_onEose s then [OnEose u] else [])
        @ (if u \<notin> set (eose s) then [SubBus (BusEose u (t - sub_start s))] else [])"])
     (auto simp: silent_def eose_record_def)

lemma deliver_inv_on_eose: "deliver_inv x s \<Longrightarrow> deliver_inv x (on_eose s u t)"
proof -
  assume "deliver_inv x s"
  then have a: "deliver_inv x (eose_record s u t)" by (rule deliver_inv_eose_record)
  then show ?thesis using deliver_inv_close[OF a] by (simp add: on_eose_def Let_def)
qed

lemma deliver_inv_step: "deliver_inv x s \<Longrightarrow> deliver_inv x (sub_step x s i)"
proof (cases i)
  case SubTimer
  assume inv: "deliver_inv x s"
  have "deliver_inv x (s\<lparr>sub_timer_armed := False\<rparr>)"
    by (rule deliver_inv_silent[OF inv, where es = "[]"]) (simp_all add: silent_def)
  then have "deliver_inv x (sub_close (s\<lparr>sub_timer_armed := False\<rparr>))" by (rule deliver_inv_close)
  with SubTimer inv show ?thesis by simp
qed (simp_all add: deliver_inv_on_event deliver_inv_on_eose deliver_inv_close)

lemma deliver_inv_run: "deliver_inv x s \<Longrightarrow> deliver_inv x (sub_run x s inps)"
  by (induction inps arbitrary: s) (simp_all add: deliver_inv_step)

lemma deliver_inv_init: "deliver_inv x (subscribe_init relays urls fs t p oe oo now)"
  by (simp add: deliver_inv_def subscribe_init_def deliveries_of_def)

text \<open>
  C1: In every run of a subscription, whatever the interleaving of events, EOSEs, timer
  and close, each event id is delivered at most once on each channel (the bus, the
  processing queue and the onEvent callback).
\<close>

theorem subscribe_delivers_once:
  "deliveries_of k i (sub_out (sub_run x (subscribe_init relays urls fs t p oe oo now) inps)) \<le> 1"
proof -
  have "deliver_inv x (sub_run x (subscribe_init relays urls fs t p oe oo now) inps)"
    by (rule deliver_inv_run[OF deliver_inv_init])
  then show ?thesis by (simp add: deliver_inv_def)
qed

text \<open>
  C3: Everything a subscription delivers on any channel passed signature verification
  and matched the subscription's filters.
\<close>

theorem subscribe_delivers_verified:
  "y \<in> set (sub_out (sub_run x (subscribe_init relays urls fs t p oe oo now) inps)) \<Longrightarrow>
   delivered_event k y = Some e \<Longrightarrow>
   verifySignature x e = Some True \<and> matchFilters x fs e"
proof -
  assume y: "y \<in> set (sub_out (sub_run x (subscribe_init relays urls fs t p oe oo now) inps))"
    and d: "delivered_event k y = Some e"
  have "deliver_inv x (sub_run x (subscribe_init relays urls fs t p oe oo now) inps)"
    by (rule deliver_inv_run[OF deliver_inv_init])
  with y d show ?thesis by (auto simp: deliver_inv_def subscribe_init_def)
qed


theorem subscribe_delivers_verified_witness:
  "SubBus (BusEvent ''wss://a'' (stamp ''wss://a'' example_event)) \<in>
     set (sub_out (sub_run example_ext (subscribe_init [''wss://a''] [''wss://a''] [1::nat] None True True True 0)
       [SubEvent ''wss://a'' example_event]))
   \<and> delivered_event KBus (SubBus (BusEvent ''wss://a'' (stamp ''wss://a'' example_event))) = Some (stamp ''wss://a'' example_event)
   \<and> verifySignature example_ext (stamp ''wss://a'' example_event) = Some True
   \<and> matchFilters example_ext [1] (stamp ''wss://a'' example_event)"
proof -
  have h1: "SubBus (BusEvent ''wss://a'' (stamp ''wss://a'' example_event)) \<in>
     set (sub_out (sub_run example_ext (subscribe_init [''wss://a''] [''wss://a''] [1::nat] None True True True 0)
       [SubEvent ''wss://a'' example_event]))"
    by (simp add: subscribe_init_def on_event_def deliver_def example_ext_def stamp_def example_event_def Let_def)
  have h2: "delivered_event KBus (SubBus (BusEvent ''wss://a'' (stamp ''wss://a'' example_event))) = Some (stamp ''wss://a'' example_event)"
    by simp
  show ?thesis using h1 h2 subscribe_delivers_verified[OF h1 h2] by simp
qed

lemma closed_step: "sub_closed s \<Longrightarrow> sub_closed (sub_step x s i)"
  by (cases i) (simp_all add: on_eose_def eose_record_def Let_def)

lemma closed_run: "sub_closed s \<Longrightarrow> sub_closed (sub_run x s inps)"
  by (induction inps arbitrary: s) (simp_all add: closed_step)

lemma timer_closes_from:
  "close_inv s \<Longrightarrow> truthy_nat (sub_timeout s) \<Longrightarrow> SubTimer \<in> set inps \<Longrightarrow> sub_closed (sub_run x s inps)"
proof (induction inps arbitrary: s)
  case Nil then show ?case by simp
next
  case (Cons i inps)
  show ?case
  proof (cases "i = SubTimer")
    case True
    have "sub_closed (sub_step x s SubTimer)"
      using Cons.prems(1,2) by (auto simp: close_inv_def)
    then have "sub_closed (sub_run x (sub_step x s SubTimer) inps)" by (rule closed_run)
    then show ?thesis using True by (simp only: sub_run_simps)
  next
    case False
    have "close_inv (sub_step x s i)" using Cons.prems(1) by (rule close_inv_step)
    moreover have "truthy_nat (sub_timeout (sub_step x s i))" using Cons.prems(2) by simp
    moreover have "SubTimer \<in> set inps" using Cons.prems(3) False by simp
    ultimately have "sub_closed (sub_run x (sub_step x s i) inps)" by (rule Cons.IH)
    then show ?thesis by simp
  qed
qed

lemma eose_inv_close: "eose_inv s \<Longrightarrow> eose_inv (sub_close s)"
  by (auto simp: eose_inv_def sub_close_def)

lemma eose_inv_on_eose:
  "eose_inv s \<Longrightarrow> u \<in> set (sub_urls s) \<Longrightarrow> eose_inv (on_eose s u t)"
  by (auto simp: eose_inv_def on_eose_def eose_record_def sub_close_def Let_def)

lemma eose_inv_step:
  assumes inv: "eose_inv s" and frm: "eose_from (sub_urls s) i" shows "eose_inv (sub_step x s i)"
proof (cases i)
  case (SubEvent u e)
  have "eose_inv (on_event x s u e)" using inv by (simp add: eose_inv_def)
  with SubEvent inv show ?thesis by simp
next
  case (SubEose u t)
  then have "u \<in> set (sub_urls s)" using frm by (simp add: eose_from_def)
  then have "eose_inv (on_eose s u t)" using inv by (rule_tac eose_inv_on_eose)
  with SubEose inv show ?thesis by simp
next
  case SubTimer
  have "eose_inv (s\<lparr>sub_timer_armed := False\<rparr>)" using inv by (simp add: eose_inv_def)
  then have "eose_inv (sub_close (s\<lparr>sub_timer_armed := False\<rparr>))" by (rule eose_inv_close)
  with SubTimer inv show ?thesis by simp
next
  case SubClose
  with inv show ?thesis by (simp add: eose_inv_close)
qed

lemma eose_inv_run:
  "eose_inv s \<Longrightarrow> \<forall>i \<in> set inps. eose_from (sub_urls s) i \<Longrightarrow> eose_inv (sub_run x s inps)"
  by (induction inps arbitrary: s) (simp_all add: eose_inv_step)

lemma sub_live_step_before: "sub_live (sub_step x s i) \<Longrightarrow> sub_live s"
  by (cases i) (auto simp: sub_close_def on_eose_def eose_record_def Let_def split: if_splits)

lemma eose_step_mono: "set (eose s) \<subseteq> set (eose (sub_step x s i))"
  by (cases i) auto

lemma eose_step_adds: "sub_live s \<Longrightarrow> u \<in> set (eose (sub_step x s (SubEose u t)))"
  by simp

lemma eosed_or_closed:
  "close_inv s \<Longrightarrow> sub_closed (sub_run x s inps) \<or>
     eose_senders inps \<union> set (eose s) \<subseteq> set (eose (sub_run x s inps))"
proof (induction inps arbitrary: s)
  case Nil then show ?case by (simp add: eose_senders_def)
next
  case (Cons i inps)
  let ?s1 = "sub_step x s i"
  have inv1: "close_inv ?s1" using Cons.prems by (rule close_inv_step)
  show ?case
  proof (cases "sub_closed (sub_run x ?s1 inps)")
    case True then show ?thesis by simp
  next
    case False
    then have "\<not> sub_closed ?s1" using closed_run by blast
    then have "sub_live ?s1" using inv1 by (simp add: close_inv_def)
    then have live: "sub_live s" by (rule sub_live_step_before)
    have "set (eose s) \<union> {u. \<exists>t. i = SubEose u t} \<subseteq> set (eose ?s1)"
      using eose_step_mono[of s x i] live by (cases i) auto
    moreover have "eose_senders inps \<union> set (eose ?s1) \<subseteq> set (eose (sub_run x ?s1 inps))"
      using Cons.IH[OF inv1] False by blast
    ultimately show ?thesis by (auto simp: eose_senders_def)
  qed
qed

lemma subscribe_eose_fast_path:
  assumes "truthy_nat t" "length relays = length urls" "distinct urls" "urls \<noteq> []"
    and "\<forall>i \<in> set inps. eose_from urls i" "set urls \<subseteq> eose_senders inps"
  shows "sub_closed (sub_run x (subscribe_init relays urls fs t p oe oo now) inps)"
proof (rule ccontr)
  let ?init = "subscribe_init relays urls fs t p oe oo now"
  let ?s = "sub_run x ?init inps"
  assume nc: "\<not> sub_closed ?s"
  have e0: "eose_inv ?init" by (simp add: eose_inv_def subscribe_init_def)
  have ei: "eose_inv ?s"
    by (rule eose_inv_run[OF e0]) (use assms(5) in \<open>simp add: subscribe_init_def\<close>)
  have ci: "close_inv ?s" by (rule close_inv_run[OF close_inv_init])
  have "set urls \<subseteq> set (eose ?s)" using eosed_or_closed[OF close_inv_init] nc assms(6) by blast
  then have seq: "set (eose ?s) = set urls" using ei by (auto simp: eose_inv_def subscribe_init_def)
  then have "length (eose ?s) = length urls"
    using ei assms(3) by (metis distinct_card eose_inv_def)
  moreover have "sub_live ?s" using ci nc by (simp add: close_inv_def)
  moreover have "eose ?s \<noteq> []" using seq assms(4) by auto
  ultimately show False using ei assms(1,2) by (simp add: eose_inv_def subscribe_init_def)
qed

lemma eose_length_bound: "eose_inv s \<Longrightarrow> u \<in> set (sub_urls s) \<Longrightarrow>
    length (ord_insert (eose s) u) \<le> length (sub_urls s)"
proof -
  assume inv: "eose_inv s" and u: "u \<in> set (sub_urls s)"
  have d: "distinct (ord_insert (eose s) u)" using inv by (simp add: eose_inv_def)
  have "set (ord_insert (eose s) u) \<subseteq> set (sub_urls s)" using inv u by (auto simp: eose_inv_def)
  then have "card (set (ord_insert (eose s) u)) \<le> card (set (sub_urls s))" by (rule card_mono[OF finite_set])
  also have "\<dots> \<le> length (sub_urls s)" by (rule card_length)
  finally show ?thesis using distinct_card[OF d] by simp
qed

lemma no_close_step:
  assumes "eose_inv s" "sub_live s" "\<not> sub_closed s" "length (sub_urls s) < sub_relays_len s"
    "eose_from (sub_urls s) i" "i \<noteq> SubTimer" "i \<noteq> SubClose"
  shows "\<not> sub_closed (sub_step x s i) \<and> sub_live (sub_step x s i)"
proof (cases i)
  case (SubEose u t)
  then have u: "u \<in> set (sub_urls s)" using assms(5) by (simp add: eose_from_def)
  have "length (eose (eose_record s u t)) < sub_relays_len (eose_record s u t)"
    using eose_length_bound[OF assms(1) u] assms(4) by (simp add: eose_record_def)
  then show ?thesis using SubEose assms(2,3) by (simp add: on_eose_def Let_def eose_record_def)
qed (use assms in simp_all)

lemma subscribe_duplicate_relays_no_fast_path:
  assumes "length urls < length relays"
    and "\<forall>i \<in> set inps. eose_from urls i \<and> i \<noteq> SubTimer \<and> i \<noteq> SubClose"
  shows "\<not> sub_closed (sub_run x (subscribe_init relays urls fs t p oe oo now) inps)"
proof -
  have "eose_inv s \<Longrightarrow> \<not> sub_closed s \<Longrightarrow> sub_live s \<Longrightarrow> length (sub_urls s) < sub_relays_len s
        \<Longrightarrow> \<forall>i \<in> set inps. eose_from (sub_urls s) i \<and> i \<noteq> SubTimer \<and> i \<noteq> SubClose
        \<Longrightarrow> \<not> sub_closed (sub_run x s inps)" for s
  proof (induction inps arbitrary: s)
    case Nil then show ?case by simp
  next
    case (Cons i inps)
    have step: "\<not> sub_closed (sub_step x s i) \<and> sub_live (sub_step x s i)"
      using Cons.prems by (intro no_close_step) simp_all
    have "eose_inv (sub_step x s i)" using Cons.prems by (intro eose_inv_step) simp_all
    then have "\<not> sub_closed (sub_run x (sub_step x s i) inps)"
      using step Cons.prems by (intro Cons.IH) simp_all
    then show ?case by simp
  qed
  moreover have "eose_inv (subscribe_init relays urls fs t p oe oo now)"
    by (simp add: eose_inv_def subscribe_init_def)
  ultimately show ?thesis using assms by (simp add: subscribe_init_def)
qed

text \<open>
  C17: Without a truthy timeout a subscription is only closed by an explicit close:
  neither EOSEs nor timers close it.
\<close>

theorem subscribe_no_timeout_stays_open:
  assumes "\<not> truthy_nat t" "SubClose \<notin> set inps"
  shows "\<not> sub_closed (sub_run x (subscribe_init relays urls fs t p oe oo now) inps)"
proof -
  have "\<not> truthy_nat (sub_timeout s) \<Longrightarrow> \<not> sub_timer_armed s \<Longrightarrow> \<not> sub_closed s \<Longrightarrow>
        SubClose \<notin> set inps \<Longrightarrow> \<not> sub_closed (sub_run x s inps)" for s
  proof (induction inps arbitrary: s)
    case Nil then show ?case by simp
  next
    case (Cons i inps)
    have "\<not> sub_closed (sub_step x s i) \<and> \<not> sub_timer_armed (sub_step x s i)"
      using Cons.prems by (cases i) (simp_all add: on_eose_def eose_record_def Let_def)
    then show ?case using Cons by simp
  qed
  then show ?thesis using assms by (simp add: subscribe_init_def)
qed

theorem subscribe_no_timeout_stays_open_witness:
  "\<not> truthy_nat None \<and> SubClose \<notin> set [SubEose ''wss://a'' 1, SubTimer]
   \<and> \<not> sub_closed (sub_run example_ext (subscribe_init [''wss://a''] [''wss://a''] [1::nat] None True True True 0)
       [SubEose ''wss://a'' 1, SubTimer])"
proof -
  have h: "\<not> truthy_nat None" "SubClose \<notin> set [SubEose ''wss://a'' 1, SubTimer]" by simp_all
  have c: "\<not> sub_closed (sub_run example_ext (subscribe_init [''wss://a''] [''wss://a''] [1::nat] None True True True 0)
       [SubEose ''wss://a'' 1, SubTimer])" by (rule subscribe_no_timeout_stays_open[OF h])
  show ?thesis using h c by blast
qed

text \<open>
  C5: A first copy of an id whose signature fails leaves no effect but still records the
  id, so a later valid copy of the same id from another relay is never delivered and
  only extends seen_on.
\<close>

theorem subscribe_forged_copy_blocks:
  assumes "sub_live s" "seen s (ev_id e) = None" "verifySignature x (stamp u e) = Some False"
    "ev_id e2 = ev_id e"
  shows "sub_out (sub_run x s [SubEvent u e, SubEvent v e2]) = sub_out s
    \<and> seen (sub_run x s [SubEvent u e, SubEvent v e2]) (ev_id e) = Some (ord_insert [u] v)"
proof -
  have s1: "on_event x s u e = s\<lparr>seen := (seen s)(ev_id e \<mapsto> [u])\<rparr>"
    by (rule on_event_drop[OF assms(2,3)]) simp
  have k: "seen (s\<lparr>seen := (seen s)(ev_id e \<mapsto> [u])\<rparr>) (ev_id e2) = Some [u]" using assms(4) by simp
  have "on_event x (s\<lparr>seen := (seen s)(ev_id e \<mapsto> [u])\<rparr>) v e2 =
      s\<lparr>seen := ((seen s)(ev_id e \<mapsto> [u]))(ev_id e2 \<mapsto> ord_insert [u] v)\<rparr>"
    using on_event_known[OF k] by simp
  then show ?thesis using assms(1,4) s1 by simp
qed

theorem subscribe_forged_copy_blocks_witness:
  "sub_live (subscribe_init [''wss://a'', ''wss://b''] [''wss://a'', ''wss://b''] [1::nat] None True True True 0)
   \<and> seen (subscribe_init [''wss://a'', ''wss://b''] [''wss://a'', ''wss://b''] [1::nat] None True True True 0) (ev_id (example_event\<lparr>ev_sig := ''forged''\<rparr>)) = None
   \<and> verifySignature example_ext (stamp ''wss://a'' (example_event\<lparr>ev_sig := ''forged''\<rparr>)) = Some False
   \<and> ev_id example_event = ev_id (example_event\<lparr>ev_sig := ''forged''\<rparr>)
   \<and> sub_out (sub_run example_ext (subscribe_init [''wss://a'', ''wss://b''] [''wss://a'', ''wss://b''] [1::nat] None True True True 0)
        [SubEvent ''wss://a'' (example_event\<lparr>ev_sig := ''forged''\<rparr>), SubEvent ''wss://b'' example_event])
      = sub_out (subscribe_init [''wss://a'', ''wss://b''] [''wss://a'', ''wss://b''] [1::nat] None True True True 0)
   \<and> seen (sub_run example_ext (subscribe_init [''wss://a'', ''wss://b''] [''wss://a'', ''wss://b''] [1::nat] None True True True 0)
        [SubEvent ''wss://a'' (example_event\<lparr>ev_sig := ''forged''\<rparr>), SubEvent ''wss://b'' example_event])
        (ev_id (example_event\<lparr>ev_sig := ''forged''\<rparr>)) = Some (ord_insert [''wss://a''] ''wss://b'')"
proof -
  have h: "sub_live (subscribe_init [''wss://a'', ''wss://b''] [''wss://a'', ''wss://b''] [1::nat] None True True True 0)"
    "seen (subscribe_init [''wss://a'', ''wss://b''] [''wss://a'', ''wss://b''] [1::nat] None True True True 0) (ev_id (example_event\<lparr>ev_sig := ''forged''\<rparr>)) = None"
    "verifySignature example_ext (stamp ''wss://a'' (example_event\<lparr>ev_sig := ''forged''\<rparr>)) = Some False"
    "ev_id example_event = ev_id (example_event\<lparr>ev_sig := ''forged''\<rparr>)"
    by (simp_all add: subscribe_init_def example_ext_def stamp_def)
  note c = subscribe_forged_copy_blocks[OF h, of "''wss://b''"]
  show ?thesis by (intro conjI h c[THEN conjunct1] c[THEN conjunct2])
qed

lemma eose_reports_append [simp]: "eose_reports u (xs @ ys) = eose_reports u xs + eose_reports u ys"
  by (simp add: eose_reports_def)

lemma eose_reports_simps [simp]:
  "eose_reports u [] = 0"
  "eose_reports u [SubBus (BusEose v t)] = (if v = u then 1 else 0)"
  "eose_reports u (SubBus (BusEvent v e) # ys) = eose_reports u ys"
  "eose_reports u (SubBus (BusSubClose us) # ys) = eose_reports u ys"
  "eose_reports u (SubBus (BusSubOpen us) # ys) = eose_reports u ys"
  "eose_reports u (QueuePush e # ys) = eose_reports u ys"
  "eose_reports u (OnEvent e # ys) = eose_reports u ys"
  "eose_reports u (OnEose v # ys) = eose_reports u ys"
  "eose_reports u (SubUnsubscribe # ys) = eose_reports u ys"
  "eose_reports u (SubCleanup # ys) = eose_reports u ys"
  "eose_reports u (ConsoleError # ys) = eose_reports u ys"
  by (simp_all add: eose_reports_def)

lemma eose_reports_deliver [simp]: "eose_reports u (deliver s v e) = 0"
  by (simp add: deliver_def)

lemma eose_report_inv_armed [simp]: "eose_report_inv (s\<lparr>sub_timer_armed := b\<rparr>) = eose_report_inv s"
  by (simp add: eose_report_inv_def)

lemma eose_report_inv_close: "eose_report_inv s \<Longrightarrow> eose_report_inv (sub_close s)"
  by (simp add: eose_report_inv_def sub_close_def)

lemma eose_report_inv_on_event: "eose_report_inv s \<Longrightarrow> eose_report_inv (on_event x s u e)"
  by (auto simp: eose_report_inv_def on_event_def Let_def split: option.splits bool.splits)

lemma eose_report_inv_record: "eose_report_inv s \<Longrightarrow> eose_report_inv (eose_record s u t)"
  by (auto simp: eose_report_inv_def eose_record_def ord_insert_def)

lemma eose_report_inv_step: "eose_report_inv s \<Longrightarrow> eose_report_inv (sub_step x s i)"
proof (cases i)
  case (SubEose u t)
  assume "eose_report_inv s"
  then have "eose_report_inv (eose_record s u t)" by (rule eose_report_inv_record)
  then show ?thesis using SubEose \<open>eose_report_inv s\<close>
    by (simp add: on_eose_def Let_def eose_report_inv_close)
qed (simp_all add: eose_report_inv_on_event eose_report_inv_close)

text \<open>
  C20: In every run the bus reports the EOSE timing of a relay exactly once if the relay
  has sent EOSE while the subscription was open, and never otherwise.
\<close>

theorem subscribe_eose_reported_once:
  "eose_reports u (sub_out (sub_run x (subscribe_init relays urls fs t p oe oo now) inps))
     = (if u \<in> set (eose (sub_run x (subscribe_init relays urls fs t p oe oo now) inps)) then 1 else 0)"
proof -
  have "eose_report_inv (subscribe_init relays urls fs t p oe oo now :: 'a sub_state)"
    by (simp add: eose_report_inv_def subscribe_init_def)
  then have "eose_report_inv (sub_run x (subscribe_init relays urls fs t p oe oo now) inps)"
    by (induction inps arbitrary: relays rule: rev_induct) (simp_all add: sub_run_def eose_report_inv_step)
  then show ?thesis by (simp add: eose_report_inv_def)
qed

lemma sub_wf_close: "sub_wf s \<Longrightarrow> sub_wf (sub_close s)"
  by (simp add: sub_wf_def sub_close_def)

lemma sub_wf_armed [simp]: "sub_wf (s\<lparr>sub_timer_armed := b\<rparr>) = sub_wf s"
  by (simp add: sub_wf_def)

lemma sub_wf_on_event: "sub_wf s \<Longrightarrow> u \<in> set (sub_urls s) \<Longrightarrow> sub_wf (on_event x s u e)"
  by (auto simp: sub_wf_def on_event_def Let_def ord_insert_def split: option.splits bool.splits if_splits)

lemma sub_wf_eose_record: "sub_wf s \<Longrightarrow> u \<in> set (sub_urls s) \<Longrightarrow> sub_wf (eose_record s u t)"
  by (auto simp: sub_wf_def eose_record_def ord_insert_def)

lemma sub_wf_step: "sub_wf s \<Longrightarrow> input_from (sub_urls s) i \<Longrightarrow> sub_wf (sub_step x s i)"
proof (cases i)
  case (SubEose u t)
  assume wf: "sub_wf s" and f: "input_from (sub_urls s) i"
  then have "sub_wf (eose_record s u t)" using SubEose by (simp add: sub_wf_eose_record)
  then show ?thesis using SubEose wf by (simp add: on_eose_def Let_def sub_wf_close)
qed (simp_all add: sub_wf_on_event sub_wf_close)

lemma sub_wf_run:
  "sub_wf s \<Longrightarrow> \<forall>i \<in> set inps. input_from (sub_urls s) i \<Longrightarrow> sub_wf (sub_run x s inps)"
  by (induction inps arbitrary: s) (simp_all add: sub_wf_step)

text \<open>
  C18: When the transport only reports relays of the target, every seen_on list of the
  dedup table is non-empty, repetition-free and made of target URLs, and so is the EOSE
  set, in every state a subscription reaches.
\<close>

theorem subscribe_state_wf:
  "\<forall>i \<in> set inps. input_from urls i \<Longrightarrow>
   sub_wf (sub_run x (subscribe_init relays urls fs t p oe oo now) inps)"
  by (rule sub_wf_run) (simp_all add: sub_wf_def subscribe_init_def)

theorem subscribe_state_wf_witness:
  "sub_wf (sub_run example_ext (subscribe_init [''wss://a'', ''wss://b''] [''wss://a'', ''wss://b''] [1::nat] None True True True 0)
      [SubEvent ''wss://a'' example_event, SubEvent ''wss://b'' example_event, SubEose ''wss://a'' 1])
   \<and> seen (sub_run example_ext (subscribe_init [''wss://a'', ''wss://b''] [''wss://a'', ''wss://b''] [1::nat] None True True True 0)
      [SubEvent ''wss://a'' example_event, SubEvent ''wss://b'' example_event, SubEose ''wss://a'' 1]) ''e1''
     = Some [''wss://a'', ''wss://b'']"
proof -
  have h: "\<forall>i \<in> set [SubEvent ''wss://a'' example_event, SubEvent ''wss://b'' example_event, SubEose ''wss://a'' 1].
      input_from [''wss://a'', ''wss://b''] i" by simp
  have "seen (sub_run example_ext (subscribe_init [''wss://a'', ''wss://b''] [''wss://a'', ''wss://b''] [1::nat] None True True True 0)
      [SubEvent ''wss://a'' example_event, SubEvent ''wss://b'' example_event, SubEose ''wss://a'' 1]) ''e1''
     = Some [''wss://a'', ''wss://b'']"
    by (simp add: subscribe_init_def on_event_def on_eose_def eose_record_def example_ext_def example_event_def
        stamp_def deliver_def ord_insert_def Let_def)
  then show ?thesis using subscribe_state_wf[OF h] by blast
qed

lemma sub_step_armed: "sub_timer_armed (sub_step x s i) \<Longrightarrow> sub_timer_armed s \<and> i \<noteq> SubTimer"
  by (cases i) (auto simp: on_eose_def eose_record_def on_event_def sub_close_def Let_def
      split: if_splits option.splits bool.splits)

lemma sub_run_disarmed: "SubTimer \<in> set inps \<Longrightarrow> \<not> sub_timer_armed (sub_run x s inps)"
proof (induction inps arbitrary: s)
  case Nil then show ?case by simp
next
  case (Cons i inps)
  have "\<not> sub_timer_armed (sub_run x s' is')" if "\<not> sub_timer_armed s'" for s' is'
    using that by (induction is' arbitrary: s') (auto dest: sub_step_armed)
  then show ?case using Cons sub_step_armed[of x s i] by (cases "i = SubTimer") auto
qed

lemma sub_step_terminal:
  "sub_closed s \<Longrightarrow> \<not> sub_live s \<Longrightarrow> \<not> sub_timer_armed s \<Longrightarrow> sub_step x s i = s"
  by (cases i) (simp_all add: sub_close_def)

text \<open>
  C14: With a truthy timeout, once the timer has fired the subscription is closed and
  has terminated: every further event, EOSE, timer or close leaves its state unchanged.
\<close>

theorem subscribe_terminates_on_timer:
  "truthy_nat t \<Longrightarrow> SubTimer \<in> set inps \<Longrightarrow>
   sub_closed (sub_run x (subscribe_init relays urls fs t p oe oo now) inps)
   \<and> (\<forall>i. sub_step x (sub_run x (subscribe_init relays urls fs t p oe oo now) inps) i
          = sub_run x (subscribe_init relays urls fs t p oe oo now) inps)"
proof -
  assume t: "truthy_nat t" and i: "SubTimer \<in> set inps"
  let ?s = "sub_run x (subscribe_init relays urls fs t p oe oo now) inps"
  have c: "sub_closed ?s"
    by (rule timer_closes_from[OF close_inv_init]) (use t i in \<open>simp_all add: subscribe_init_def\<close>)
  have "close_inv ?s" by (rule close_inv_run[OF close_inv_init])
  then have "\<not> sub_live ?s" using c by (simp add: close_inv_def)
  moreover have "\<not> sub_timer_armed ?s" using i by (rule sub_run_disarmed)
  ultimately show ?thesis using c sub_step_terminal by blast
qed

theorem subscribe_terminates_on_timer_witness:
  "sub_closed (sub_run example_ext (subscribe_init [''wss://a''] [''wss://a''] [1::nat] (Some 5) True True True 0)
       [SubEvent ''wss://a'' example_event, SubTimer])
   \<and> (\<forall>i. sub_step example_ext (sub_run example_ext (subscribe_init [''wss://a''] [''wss://a''] [1::nat] (Some 5) True True True 0)
       [SubEvent ''wss://a'' example_event, SubTimer]) i
     = sub_run example_ext (subscribe_init [''wss://a''] [''wss://a''] [1::nat] (Some 5) True True True 0)
       [SubEvent ''wss://a'' example_event, SubTimer])"
proof -
  have h: "truthy_nat (Some 5)" "SubTimer \<in> set [SubEvent ''wss://a'' example_event, SubTimer]" by simp_all
  show ?thesis by (rule subscribe_terminates_on_timer[OF h])
qed

text \<open>
  C4: Accepting a fresh, verified, matching event while the subscription is open
  appends, in this order and nothing else, the bus event, the queue push when
  shouldProcess holds, and the onEvent call when a callback is given; the dedup table
  records the delivering relay alone, and the event carries seen_on = [relay] and a
  defaulted empty content.
\<close>

theorem subscribe_accept_effects:
  assumes "sub_live s" "seen s (ev_id e) = None" "verifySignature x (stamp u e) = Some True"
    "matchFilters x (sub_filters s) (stamp u e)"
  shows "sub_out (sub_step x s (SubEvent u e)) = sub_out s @ [SubBus (BusEvent u (stamp u e))]
      @ (if shouldProcess s then [QueuePush (stamp u e)] else [])
      @ (if has_onEvent s then [OnEvent (stamp u e)] else [])
    \<and> seen (sub_step x s (SubEvent u e)) (ev_id e) = Some [u]
    \<and> ev_seen_on (stamp u e) = [u] \<and> ev_content (stamp u e) = Some (case ev_content e of None \<Rightarrow> [] | Some c \<Rightarrow> c)"
  using assms by (simp add: on_event_accept deliver_def stamp_def)

theorem subscribe_accept_effects_witness:
  "sub_out (sub_step example_ext (subscribe_init [''wss://a''] [''wss://a''] [1::nat] None True False True 0)
      (SubEvent ''wss://a'' example_event))
     = [SubBus (BusSubOpen [''wss://a''])] @ [SubBus (BusEvent ''wss://a'' (stamp ''wss://a'' example_event))]
       @ [QueuePush (stamp ''wss://a'' example_event)] @ []
   \<and> ev_content (stamp ''wss://a'' example_event) = Some []"
proof -
  have h: "sub_live (subscribe_init [''wss://a''] [''wss://a''] [1::nat] None True False True 0)"
    "seen (subscribe_init [''wss://a''] [''wss://a''] [1::nat] None True False True 0) (ev_id example_event) = None"
    "verifySignature example_ext (stamp ''wss://a'' example_event) = Some True"
    "matchFilters example_ext (sub_filters (subscribe_init [''wss://a''] [''wss://a''] [1::nat] None True False True 0))
       (stamp ''wss://a'' example_event)"
    by (simp_all add: subscribe_init_def example_ext_def example_event_def stamp_def)
  show ?thesis using subscribe_accept_effects[OF h]
    by (simp add: subscribe_init_def example_event_def)
qed

end
