(* ===== verification/Count.thy ===== *)
theory Count
  imports Session Subscribe
begin

text \<open>
  The count coordinator: \<open>count\<close> of \<open>src/engine/components/Network.ts\<close>
  (lines 274--289). It builds an executor over the configured \<open>COUNT_RELAYS\<close>
  (not over normalised caller relays), resolves its promise with the first count any
  relay reports, and when the 3000 ms timer fires resolves with 0 (a no-op if a
  count came first), unsubscribes and cleans the target up. The promise value is
  the first resolution, so the state keeps it directly.
\<close>

datatype count_effect = CountUnsubscribe | CountCleanup

record count_state =
  count_result :: "int option"
  count_live :: bool
  count_timer_armed :: bool
  count_out :: "count_effect list"

datatype count_input = CountFrom url int | CountTimer

definition count_init :: count_state where
  "count_init = \<lparr>count_result = None, count_live = True, count_timer_armed = True, count_out = []\<rparr>"

definition promise_resolve :: "int option \<Rightarrow> int \<Rightarrow> int option" where
  "promise_resolve r c = (case r of None \<Rightarrow> Some c | Some c0 \<Rightarrow> Some c0)"

fun count_step :: "count_state \<Rightarrow> count_input \<Rightarrow> count_state" where
  "count_step s (CountFrom u c) =
     (if count_live s then s\<lparr>count_result := promise_resolve (count_result s) c\<rparr> else s)"
| "count_step s CountTimer =
     (if count_timer_armed s
      then s\<lparr>count_result := promise_resolve (count_result s) 0, count_live := False,
             count_timer_armed := False, count_out := count_out s @ [CountUnsubscribe, CountCleanup]\<rparr>
      else s)"

definition count_run :: "count_state \<Rightarrow> count_input list \<Rightarrow> count_state" where
  "count_run = foldl count_step"

definition count_ms :: nat where
  "count_ms = 3000"

definition count :: "config \<Rightarrow> net \<Rightarrow> 'f plural \<Rightarrow> 'f list \<times> target \<times> net \<times> count_state" where
  "count cfg n flt =
     (let filters = ensurePlural flt;
          (t, n1) = getExecutor cfg n (count_relays cfg) False
      in (filters, t, n1, count_init))"

text \<open>The value the promise settles on: the first count, or 0 if the timer comes first.\<close>

fun first_count :: "count_input list \<Rightarrow> int option" where
  "first_count [] = None"
| "first_count (CountFrom u c # _) = Some c"
| "first_count (CountTimer # _) = Some 0"


subsection \<open>Lemmas\<close>

lemma count_run_simps [simp]:
  "count_run s [] = s" "count_run s (i # inps) = count_run (count_step s i) inps"
  by (simp_all add: count_run_def)

lemma count_result_stays:
  "count_result s = Some c \<Longrightarrow> count_result (count_run s inps) = Some c"
proof (induction inps arbitrary: s)
  case Nil then show ?case by simp
next
  case (Cons i inps)
  have "count_result (count_step s i) = Some c"
    using Cons.prems by (cases i) (simp_all add: promise_resolve_def)
  then show ?case using Cons.IH by simp
qed

text \<open>
  C33: The count promise settles on the first count a relay reports before the timer, on
  0 if the timer comes first, and is pending otherwise.
\<close>

theorem count_settles_on_first:
  "count_result (count_run count_init inps) = first_count inps"
proof (cases inps)
  case Nil then show ?thesis by (simp add: count_init_def)
next
  case (Cons i rest)
  then show ?thesis
    by (cases i) (simp_all add: count_init_def promise_resolve_def count_result_stays)
qed

lemma count_teardown_inv:
  "count_out (count_run s inps) =
     count_out s @ (if count_timer_armed s \<and> CountTimer \<in> set inps then [CountUnsubscribe, CountCleanup] else [])"
proof (induction inps arbitrary: s)
  case Nil then show ?case by simp
next
  case (Cons i inps)
  show ?case using Cons.IH[of "count_step s i"] by (cases i) auto
qed

text \<open>
  C34: The count session's teardown log is empty until the timer fires and is then
  exactly one unsubscribe followed by one cleanup of the target, whether or not a count
  arrived first and whatever follows.
\<close>

theorem count_teardown_once:
  "count_out (count_run count_init inps)
     = (if CountTimer \<in> set inps then [CountUnsubscribe, CountCleanup] else [])"
  using count_teardown_inv[of count_init inps] by (simp add: count_init_def)

text \<open>
  C35: When FORCE_RELAYS is set, count is sent to the forced relays (directly or through
  the multiplexer) and not to COUNT_RELAYS, because it builds its executor through
  getExecutor.
\<close>

theorem count_uses_forced_relays:
  assumes "force_relays cfg \<noteq> []"
  shows "fst (snd (count cfg n flt)) \<in> {Plex (force_relays cfg) (multiplextr_url cfg), Relays (force_relays cfg)}"
  using assms
  by (auto simp: count_def getExecutor_def choose_target_cases executor_urls_def Let_def case_prod_beta)

theorem count_uses_forced_relays_witness:
  "fst (snd (count (example_config\<lparr>force_relays := [''wss://forced''], count_relays := [''wss://count'']\<rparr>)
      contributeState (One (1::nat))))
     = Relays [''wss://forced'']"
proof -
  have h: "force_relays (example_config\<lparr>force_relays := [''wss://forced''], count_relays := [''wss://count'']\<rparr>) \<noteq> []"
    by simp
  have "fst (snd (count (example_config\<lparr>force_relays := [''wss://forced''], count_relays := [''wss://count'']\<rparr>)
      contributeState (One (1::nat))))
     \<in> {Plex [''wss://forced''] [], Relays [''wss://forced'']}"
    using count_uses_forced_relays[OF h] by (simp add: example_config_def)
  then show ?thesis by (simp add: count_def getExecutor_def choose_target_cases executor_urls_def example_config_def Let_def case_prod_beta)
qed

end
