(* ===== verification/Publish.thy ===== *)
theory Publish
  imports Urls Session
begin

text \<open>
  The publish coordinator: \<open>publish\<close> of \<open>src/engine/components/Network.ts\<close>
  (lines 121--182). The promise body keeps three JavaScript sets (\<open>timeouts\<close>,
  \<open>succeeded\<close>, \<open>failed\<close>), a timer and the executor's publish subscription;
  every callback ends in \<open>attemptToResolve\<close>. The state below holds those sets,
  whether the subscription is still live and the timer still armed, and the log of
  what the body does to the outside: progress reports, \<open>resolve\<close> calls,
  \<open>sub.unsubscribe()\<close> and \<open>executor.target.cleanup()\<close>. The value of the promise
  is the argument of the first \<open>resolve\<close>. Time is abstract: the timer firing is
  an input like a relay's answer, so any interleaving is a list of inputs.
\<close>

record progress =
  pr_succeeded :: "url set"
  pr_failed :: "url set"
  pr_timeouts :: "url set"
  pr_completed :: "url set"
  pr_pending :: "url set"

datatype pub_effect =
    OnProgress progress
  | Resolve progress
  | PubUnsubscribe
  | PubCleanup

record pub_state =
  pub_urls :: "url list"
  succeeded :: "url set"
  failed :: "url set"
  timeouts :: "url set"
  pub_sub_live :: bool
  pub_timer_armed :: bool
  has_onProgress :: bool
  pub_out :: "pub_effect list"

datatype pub_input = PubOk url | PubError url | PubTimer

definition getProgress :: "pub_state \<Rightarrow> progress" where
  "getProgress s =
     (let completed = timeouts s \<union> succeeded s \<union> failed s
      in \<lparr>pr_succeeded = succeeded s, pr_failed = failed s, pr_timeouts = timeouts s,
          pr_completed = completed, pr_pending = set (pub_urls s) - completed\<rparr>)"

definition attemptToResolve :: "pub_state \<Rightarrow> pub_state" where
  "attemptToResolve s =
     (let p = getProgress s in
      if pr_pending p = {}
      then s\<lparr>pub_out := pub_out s @ [Resolve p, PubUnsubscribe, PubCleanup], pub_sub_live := False\<rparr>
      else if has_onProgress s then s\<lparr>pub_out := pub_out s @ [OnProgress p]\<rparr>
      else s)"

text \<open>
  The promise body up to its last line: timer armed, subscription open, then the
  initial \<open>attemptToResolve()\<close> that reports progress before any network event.
\<close>

definition publish_init :: "url list \<Rightarrow> bool \<Rightarrow> pub_state" where
  "publish_init urls onProgress = attemptToResolve
     \<lparr>pub_urls = urls, succeeded = {}, failed = {}, timeouts = {}, pub_sub_live = True,
      pub_timer_armed = True, has_onProgress = onProgress, pub_out = []\<rparr>"

text \<open>
  The three callbacks. Relay answers reach the body only while the executor's
  subscription is live; the timer fires once.
\<close>

fun pub_step :: "pub_state \<Rightarrow> pub_input \<Rightarrow> pub_state" where
  "pub_step s (PubOk u) =
     (if pub_sub_live s
      then attemptToResolve (s\<lparr>succeeded := insert u (succeeded s), timeouts := timeouts s - {u},
                               failed := failed s - {u}\<rparr>)
      else s)"
| "pub_step s (PubError u) =
     (if pub_sub_live s
      then attemptToResolve (s\<lparr>failed := insert u (failed s), timeouts := timeouts s - {u}\<rparr>)
      else s)"
| "pub_step s PubTimer =
     (if pub_timer_armed s
      then attemptToResolve (s\<lparr>timeouts := timeouts s \<union>
               {u \<in> set (pub_urls s). u \<notin> succeeded s \<and> u \<notin> failed s},
             pub_timer_armed := False\<rparr>)
      else s)"

definition pub_run :: "pub_state \<Rightarrow> pub_input list \<Rightarrow> pub_state" where
  "pub_run = foldl pub_step"

fun first_resolve :: "pub_effect list \<Rightarrow> progress option" where
  "first_resolve [] = None"
| "first_resolve (Resolve p # _) = Some p"
| "first_resolve (_ # es) = first_resolve es"

text \<open>
  The whole of \<open>publish\<close>: normalise the relays, build the executor (the gate is
  bypassed for \<open>AUTH\<close> messages), announce the publish on the bus, run the promise
  body. The executor's relays are the ones whose answers the body can receive.
\<close>

definition publish :: "config \<Rightarrow> net \<Rightarrow> url list \<Rightarrow> bool \<Rightarrow> string
    \<Rightarrow> log_msg list \<times> target \<times> net \<times> pub_state" where
  "publish cfg n relays onProgress verb =
     (let (log, urls) = getUrls normalizeRelayUrl relays;
          (t, n1) = getExecutor cfg n urls (verb = ''AUTH'')
      in (log, t, n1\<lparr>bus := bus n1 @ [BusPublish urls]\<rparr>, publish_init urls onProgress))"

text \<open>The invariant of the promise body.\<close>

definition resolved :: "pub_state \<Rightarrow> bool" where
  "resolved s = (first_resolve (pub_out s) \<noteq> None)"

definition good_resolution :: "url list \<Rightarrow> progress \<Rightarrow> bool" where
  "good_resolution urls p = (pr_pending p = {} \<and> set urls \<subseteq> pr_completed p
      \<and> pr_completed p = pr_timeouts p \<union> pr_succeeded p \<union> pr_failed p
      \<and> pr_timeouts p \<inter> (pr_succeeded p \<union> pr_failed p) = {})"

definition pub_inv :: "pub_state \<Rightarrow> bool" where
  "pub_inv s = (timeouts s \<inter> (succeeded s \<union> failed s) = {}
     \<and> (pub_sub_live s \<longrightarrow> \<not> set (pub_urls s) \<subseteq> timeouts s \<union> succeeded s \<union> failed s)
     \<and> (pub_sub_live s \<longrightarrow> pub_timer_armed s)
     \<and> (pub_sub_live s \<longleftrightarrow> \<not> resolved s)
     \<and> (\<forall>p. Resolve p \<in> set (pub_out s) \<longrightarrow> good_resolution (pub_urls s) p)
     \<and> occurrences (pub_out s) PubCleanup
         \<le> (if pub_sub_live s then 0 else if pub_timer_armed s then 1 else 2))"

text \<open>Relays that answered in a run of inputs, and the URL an input comes from.\<close>

definition responders :: "pub_input list \<Rightarrow> url set" where
  "responders evs = {u. PubOk u \<in> set evs \<or> PubError u \<in> set evs}"

fun input_url :: "pub_input \<Rightarrow> url option" where
  "input_url (PubOk u) = Some u"
| "input_url (PubError u) = Some u"
| "input_url PubTimer = None"

definition in_urls :: "pub_state \<Rightarrow> bool" where
  "in_urls s = (timeouts s \<union> succeeded s \<union> failed s \<subseteq> set (pub_urls s)
     \<and> (\<forall>p. Resolve p \<in> set (pub_out s) \<longrightarrow> pr_completed p \<subseteq> set (pub_urls s)))"

text \<open>
  The abstract specification of a publish (spec section 4.2): the value it resolves with is
  a function of the answers alone. Relays that accepted are succeeded (an accept clears an
  earlier reject), relays that rejected are failed; resolution happens at the first moment
  every relay has answered, or at the timeout with the unanswered relays timed out.
  \<open>publish_open\<close> is the state of the promise body while it is still waiting.
\<close>

definition resolution :: "url list \<Rightarrow> url set \<Rightarrow> url set \<Rightarrow> url set \<Rightarrow> progress" where
  "resolution urls S F T = \<lparr>pr_succeeded = S, pr_failed = F, pr_timeouts = T,
     pr_completed = T \<union> S \<union> F, pr_pending = set urls - (T \<union> S \<union> F)\<rparr>"

fun publish_spec :: "url list \<Rightarrow> url set \<Rightarrow> url set \<Rightarrow> pub_input list \<Rightarrow> progress option" where
  "publish_spec urls S F [] = (if set urls \<subseteq> S \<union> F then Some (resolution urls S F {}) else None)"
| "publish_spec urls S F (e # es) =
     (if set urls \<subseteq> S \<union> F then Some (resolution urls S F {})
      else case e of
        PubOk u \<Rightarrow> publish_spec urls (insert u S) (F - {u}) es
      | PubError u \<Rightarrow> publish_spec urls S (insert u F) es
      | PubTimer \<Rightarrow> Some (resolution urls S F (set urls - (S \<union> F))))"

definition publish_open :: "url list \<Rightarrow> pub_state \<Rightarrow> bool" where
  "publish_open urls s = (pub_urls s = urls \<and> pub_sub_live s \<and> pub_timer_armed s \<and> timeouts s = {}
     \<and> first_resolve (pub_out s) = None \<and> \<not> set urls \<subseteq> succeeded s \<union> failed s)"

text \<open>The number of resolutions in an effect log, to count cleanups against.\<close>

definition resolutions :: "pub_effect list \<Rightarrow> nat" where
  "resolutions es = length (filter (\<lambda>e. case e of Resolve p \<Rightarrow> True | _ \<Rightarrow> False) es)"



subsection \<open>Lemmas\<close>

lemma first_resolve_None_iff [simp]: "first_resolve es = None \<longleftrightarrow> (\<forall>p. Resolve p \<notin> set es)"
  by (induction es rule: first_resolve.induct) auto

lemma first_resolve_append:
  "first_resolve (es @ fs) = (case first_resolve es of None \<Rightarrow> first_resolve fs | Some p \<Rightarrow> Some p)"
  by (induction es rule: first_resolve.induct) auto

lemma pub_run_simps [simp]:
  "pub_run s [] = s" "pub_run s (e # es) = pub_run (pub_step s e) es"
  by (simp_all add: pub_run_def)

lemma attemptToResolve_urls [simp]: "pub_urls (attemptToResolve s) = pub_urls s"
  by (simp add: attemptToResolve_def Let_def)

lemma pub_step_urls [simp]: "pub_urls (pub_step s e) = pub_urls s"
  by (cases e) simp_all

lemma pub_out_prefix: "prefix (pub_out s) (pub_out (pub_step s e))"
  by (cases e) (auto simp: attemptToResolve_def Let_def)

lemma resolved_step: "resolved s \<Longrightarrow> resolved (pub_step s e)"
  using pub_out_prefix[of s e]
  by (auto simp: resolved_def prefix_def first_resolve_append)


lemma attemptToResolve_inv:
  assumes A1: "timeouts s \<inter> (succeeded s \<union> failed s) = {}"
    and A2: "pub_sub_live s \<longleftrightarrow> \<not> resolved s"
    and A3: "\<forall>p. Resolve p \<in> set (pub_out s) \<longrightarrow> good_resolution (pub_urls s) p"
    and A4: "occurrences (pub_out s) PubCleanup \<le> (if pub_sub_live s \<or> pub_timer_armed s then 0 else 1)"
    and A5: "\<not> pub_timer_armed s \<longrightarrow> set (pub_urls s) \<subseteq> timeouts s \<union> succeeded s \<union> failed s"
    and A6: "\<not> pub_sub_live s \<longrightarrow> set (pub_urls s) \<subseteq> timeouts s \<union> succeeded s \<union> failed s"
  shows "pub_inv (attemptToResolve s)"
proof (cases "set (pub_urls s) \<subseteq> timeouts s \<union> succeeded s \<union> failed s")
  case True
  then have "good_resolution (pub_urls s) (getProgress s)"
    using A1 by (auto simp: good_resolution_def getProgress_def Let_def)
  moreover have "occurrences (pub_out s) PubCleanup \<le> (if pub_timer_armed s then 0 else 1)"
    using A4 by (auto split: if_splits)
  ultimately show ?thesis using True A1 A3
    by (auto simp: attemptToResolve_def getProgress_def pub_inv_def resolved_def Let_def
        first_resolve_append split: option.splits)
next
  case False
  then have "pub_sub_live s" "pub_timer_armed s" using A5 A6 by auto
  with False A1 A2 A3 A4 show ?thesis
    by (auto simp: attemptToResolve_def getProgress_def pub_inv_def resolved_def Let_def
        first_resolve_append split: option.splits)
qed

lemma pub_inv_init: "pub_inv (publish_init urls h)"
  unfolding publish_init_def
  by (rule attemptToResolve_inv) (simp_all add: resolved_def)

lemma pub_inv_step:
  assumes inv: "pub_inv s" shows "pub_inv (pub_step s e)"
proof (cases e)
  case (PubOk u)
  show ?thesis
  proof (cases "pub_sub_live s")
    case True
    with inv PubOk show ?thesis
      by (simp, intro attemptToResolve_inv) (auto simp: pub_inv_def resolved_def)
  next
    case False
    with inv PubOk show ?thesis by simp
  qed
next
  case (PubError u)
  show ?thesis
  proof (cases "pub_sub_live s")
    case True
    with inv PubError show ?thesis
      by (simp, intro attemptToResolve_inv) (auto simp: pub_inv_def resolved_def)
  next
    case False
    with inv PubError show ?thesis by simp
  qed
next
  case PubTimer
  show ?thesis
  proof (cases "pub_timer_armed s")
    case True
    with inv PubTimer show ?thesis
      by (simp, intro attemptToResolve_inv) (auto simp: pub_inv_def resolved_def)
  next
    case False
    with inv PubTimer show ?thesis by simp
  qed
qed

lemma pub_inv_run: "pub_inv s \<Longrightarrow> pub_inv (pub_run s evs)"
  by (induction evs arbitrary: s) (simp_all add: pub_inv_step)

lemma resolved_run: "resolved s \<Longrightarrow> resolved (pub_run s evs)"
  by (induction evs arbitrary: s) (simp_all add: resolved_step)

lemma attempt_resolves:
  "set (pub_urls s) \<subseteq> timeouts s \<union> succeeded s \<union> failed s \<Longrightarrow> resolved (attemptToResolve s)"
  by (simp add: attemptToResolve_def getProgress_def resolved_def first_resolve_append Let_def
      split: option.splits)

lemma timer_step_resolves: "pub_inv s \<Longrightarrow> resolved (pub_step s PubTimer)"
proof (cases "pub_timer_armed s")
  case True
  then show ?thesis by (simp, intro attempt_resolves) auto
next
  case False
  assume "pub_inv s"
  with False show ?thesis unfolding pub_inv_def by simp blast
qed

lemma resolves_on_timer_from:
  "pub_inv s \<Longrightarrow> PubTimer \<in> set evs \<Longrightarrow> resolved (pub_run s evs)"
proof (induction evs arbitrary: s)
  case Nil
  then show ?case by simp
next
  case (Cons e evs)
  show ?case
  proof (cases "e = PubTimer")
    case True
    have "resolved (pub_step s PubTimer)" using Cons.prems(1) by (rule timer_step_resolves)
    then have "resolved (pub_run (pub_step s PubTimer) evs)" by (rule resolved_run)
    with True show ?thesis by (simp only: pub_run_simps)
  next
    case False
    have "pub_inv (pub_step s e)" using Cons.prems(1) by (rule pub_inv_step)
    moreover have "PubTimer \<in> set evs" using Cons.prems(2) False by simp
    ultimately have "resolved (pub_run (pub_step s e) evs)" by (rule Cons.IH)
    then show ?thesis by (simp only: pub_run_simps)
  qed
qed

lemma pub_run_urls [simp]: "pub_urls (pub_run s evs) = pub_urls s"
  by (induction evs arbitrary: s) simp_all

lemma publish_init_urls [simp]: "pub_urls (publish_init urls h) = urls"
  by (simp add: publish_init_def)

lemma attemptToResolve_sets [simp]:
  "succeeded (attemptToResolve s) = succeeded s" "failed (attemptToResolve s) = failed s"
  "timeouts (attemptToResolve s) = timeouts s" "pub_timer_armed (attemptToResolve s) = pub_timer_armed s"
  by (simp_all add: attemptToResolve_def Let_def)

lemma attemptToResolve_live:
  "pub_sub_live (attemptToResolve s) \<longleftrightarrow>
     pub_sub_live s \<and> \<not> set (pub_urls s) \<subseteq> timeouts s \<union> succeeded s \<union> failed s"
  by (auto simp: attemptToResolve_def getProgress_def Let_def)

lemma live_step_before: "pub_sub_live (pub_step s e) \<Longrightarrow> pub_sub_live s"
  by (cases e) (auto simp: attemptToResolve_live split: if_splits)

lemma responders_Cons:
  "responders (e # evs) = responders evs \<union> (case e of PubOk u \<Rightarrow> {u} | PubError u \<Rightarrow> {u} | PubTimer \<Rightarrow> {})"
  by (cases e) (auto simp: responders_def)

lemma answered_step:
  "pub_sub_live (pub_step s e) \<Longrightarrow>
     succeeded s \<union> failed s \<union> (case e of PubOk u \<Rightarrow> {u} | PubError u \<Rightarrow> {u} | PubTimer \<Rightarrow> {})
     \<subseteq> succeeded (pub_step s e) \<union> failed (pub_step s e)"
  by (cases e) (auto simp: attemptToResolve_live split: if_splits)

lemma answered_or_resolved:
  "pub_inv s \<Longrightarrow> resolved (pub_run s evs) \<or>
     responders evs \<union> succeeded s \<union> failed s \<subseteq> succeeded (pub_run s evs) \<union> failed (pub_run s evs)"
proof (induction evs arbitrary: s)
  case Nil
  then show ?case by (simp add: responders_def)
next
  case (Cons e evs)
  let ?s1 = "pub_step s e"
  have inv1: "pub_inv ?s1" using Cons.prems by (rule pub_inv_step)
  show ?case
  proof (cases "resolved (pub_run ?s1 evs)")
    case True
    then show ?thesis by simp
  next
    case False
    then have "\<not> resolved ?s1" using resolved_run by blast
    then have "pub_sub_live ?s1" using inv1 by (simp add: pub_inv_def)
    then have "succeeded s \<union> failed s \<union> (case e of PubOk u \<Rightarrow> {u} | PubError u \<Rightarrow> {u} | PubTimer \<Rightarrow> {})
       \<subseteq> succeeded ?s1 \<union> failed ?s1" by (rule answered_step)
    moreover have "responders evs \<union> succeeded ?s1 \<union> failed ?s1
       \<subseteq> succeeded (pub_run ?s1 evs) \<union> failed (pub_run ?s1 evs)"
      using Cons.IH[OF inv1] False by blast
    ultimately show ?thesis by (auto simp: responders_Cons)
  qed
qed

text \<open>
  C9: The publish promise resolves without the timer as soon as every requested relay
  has answered with ok or error.
\<close>

theorem publish_resolves_when_all_answer:
  "set urls \<subseteq> responders evs \<Longrightarrow> resolved (pub_run (publish_init urls h) evs)"
proof (rule ccontr)
  let ?s = "pub_run (publish_init urls h) evs"
  assume all: "set urls \<subseteq> responders evs" and nr: "\<not> resolved ?s"
  have inv: "pub_inv ?s" by (rule pub_inv_run[OF pub_inv_init])
  have "set urls \<subseteq> succeeded ?s \<union> failed ?s"
    using answered_or_resolved[OF pub_inv_init, of urls h evs] nr all by blast
  moreover have "pub_sub_live ?s" using inv nr by (simp add: pub_inv_def)
  ultimately show False using inv unfolding pub_inv_def by auto
qed


theorem publish_resolves_when_all_answer_witness:
  "set [''wss://a'', ''wss://b''] \<subseteq> responders [PubOk ''wss://a'', PubError ''wss://b'']
   \<and> resolved (pub_run (publish_init [''wss://a'', ''wss://b''] False) [PubOk ''wss://a'', PubError ''wss://b''])"
proof -
  have h: "set [''wss://a'', ''wss://b''] \<subseteq> responders [PubOk ''wss://a'', PubError ''wss://b'']"
    by (simp add: responders_def)
  show ?thesis using h publish_resolves_when_all_answer[OF h] by simp
qed

lemma in_urls_attempt_iff [simp]: "in_urls (attemptToResolve s) = in_urls s"
  by (auto simp: in_urls_def attemptToResolve_def getProgress_def Let_def)

lemma in_urls_step:
  assumes "in_urls s" "\<forall>u. input_url e = Some u \<longrightarrow> u \<in> set (pub_urls s)"
  shows "in_urls (pub_step s e)"
proof (cases e)
  case (PubOk u)
  have "in_urls (s\<lparr>succeeded := insert u (succeeded s), timeouts := timeouts s - {u},
                     failed := failed s - {u}\<rparr>)"
    using assms PubOk by (auto simp: in_urls_def)
  with assms PubOk show ?thesis by simp
next
  case (PubError u)
  have "in_urls (s\<lparr>failed := insert u (failed s), timeouts := timeouts s - {u}\<rparr>)"
    using assms PubError by (auto simp: in_urls_def)
  with assms PubError show ?thesis by simp
next
  case PubTimer
  have "in_urls (s\<lparr>timeouts := timeouts s \<union> {u \<in> set (pub_urls s). u \<notin> succeeded s \<and> u \<notin> failed s},
             pub_timer_armed := False\<rparr>)"
    using assms by (auto simp: in_urls_def)
  with assms PubTimer show ?thesis by simp
qed

lemma in_urls_run:
  "in_urls s \<Longrightarrow> (\<forall>e \<in> set evs. \<forall>u. input_url e = Some u \<longrightarrow> u \<in> set (pub_urls s))
     \<Longrightarrow> in_urls (pub_run s evs)"
  by (induction evs arbitrary: s) (simp_all add: in_urls_step)

lemma first_resolve_in: "first_resolve es = Some p \<Longrightarrow> Resolve p \<in> set es"
  by (induction es rule: first_resolve.induct) auto

text \<open>
  C7: When the publish promise resolves and all answers come from the requested relays,
  nothing is pending, the completed relays are exactly the requested ones, and completed
  is the union of timeouts, succeeded and failed with timeouts disjoint from the other
  two.
\<close>

theorem publish_resolution_partition:
  assumes "first_resolve (pub_out (pub_run (publish_init urls h) evs)) = Some p"
    and "\<forall>e \<in> set evs. \<forall>u. input_url e = Some u \<longrightarrow> u \<in> set urls"
  shows "pr_pending p = {} \<and> pr_completed p = set urls
    \<and> pr_completed p = pr_timeouts p \<union> pr_succeeded p \<union> pr_failed p
    \<and> pr_timeouts p \<inter> (pr_succeeded p \<union> pr_failed p) = {}"
proof -
  let ?s = "pub_run (publish_init urls h) evs"
  have r: "Resolve p \<in> set (pub_out ?s)" using assms(1) by (rule first_resolve_in)
  have "pub_inv ?s" by (rule pub_inv_run[OF pub_inv_init])
  then have g: "good_resolution urls p" using r by (simp add: pub_inv_def)
  have "in_urls (publish_init urls h)"
    unfolding publish_init_def in_urls_attempt_iff by (simp add: in_urls_def)
  then have "in_urls ?s" using assms(2) by (intro in_urls_run) simp_all
  then have "pr_completed p \<subseteq> set urls" using r by (simp add: in_urls_def)
  with g show ?thesis by (auto simp: good_resolution_def)
qed

theorem publish_resolution_partition_witness:
  "first_resolve (pub_out (pub_run (publish_init [''wss://a'', ''wss://b''] False) [PubOk ''wss://a'', PubTimer]))
     = Some \<lparr>pr_succeeded = {''wss://a''}, pr_failed = {}, pr_timeouts = {''wss://b''},
             pr_completed = {''wss://a'', ''wss://b''}, pr_pending = {}\<rparr>
   \<and> {''wss://a''} \<inter> {} = ({}::url set)
   \<and> {''wss://b''} \<inter> ({''wss://a''} \<union> {}) = {}"
proof -
  have h1: "first_resolve (pub_out (pub_run (publish_init [''wss://a'', ''wss://b''] False) [PubOk ''wss://a'', PubTimer]))
     = Some \<lparr>pr_succeeded = {''wss://a''}, pr_failed = {}, pr_timeouts = {''wss://b''},
             pr_completed = {''wss://a'', ''wss://b''}, pr_pending = {}\<rparr>"
    by (simp add: publish_init_def attemptToResolve_def getProgress_def Let_def first_resolve_append insert_commute) auto
  have h2: "\<forall>e \<in> set [PubOk ''wss://a'', PubTimer]. \<forall>u. input_url e = Some u \<longrightarrow> u \<in> set [''wss://a'', ''wss://b'']"
    by simp
  show ?thesis using h1 h2 publish_resolution_partition[OF h1 h2] by simp
qed

lemma publish_cleanup_at_most_twice:
  "occurrences (pub_out (pub_run (publish_init urls h) evs)) PubCleanup \<le> 2"
proof -
  have "pub_inv (pub_run (publish_init urls h) evs)" by (rule pub_inv_run[OF pub_inv_init])
  then show ?thesis unfolding pub_inv_def by (auto split: if_splits)
qed

text \<open>
  C10: An ok followed by an error from the same relay (with another relay still pending)
  leaves that relay in both the succeeded and the failed set, because onError does not
  delete from succeeded.
\<close>

theorem publish_ok_then_error_overlap:
  assumes "u \<in> set urls" "v \<in> set urls" "u \<noteq> v"
  shows "u \<in> succeeded (pub_run (publish_init urls h) [PubOk u, PubError u])
       \<inter> failed (pub_run (publish_init urls h) [PubOk u, PubError u])"
proof -
  let ?s0 = "publish_init urls h"
  have l0: "pub_sub_live ?s0" using assms(1) by (auto simp: publish_init_def attemptToResolve_live)
  let ?s1 = "pub_step ?s0 (PubOk u)"
  have s1: "succeeded ?s1 = {u}" "failed ?s1 = {}" "timeouts ?s1 = {}"
    using l0 by (simp_all add: publish_init_def)
  have l1: "pub_sub_live ?s1"
    using l0 s1 assms by (auto simp: attemptToResolve_live)
  show ?thesis using l1 s1 by simp
qed

theorem publish_ok_then_error_overlap_witness:
  "''wss://a'' \<in> set [''wss://a'', ''wss://b''] \<and> ''wss://b'' \<in> set [''wss://a'', ''wss://b''] \<and> ''wss://a'' \<noteq> ''wss://b''
   \<and> ''wss://a'' \<in> succeeded (pub_run (publish_init [''wss://a'', ''wss://b''] False) [PubOk ''wss://a'', PubError ''wss://a''])
       \<inter> failed (pub_run (publish_init [''wss://a'', ''wss://b''] False) [PubOk ''wss://a'', PubError ''wss://a''])"
proof -
  have h: "''wss://a'' \<in> set [''wss://a'', ''wss://b'']" "''wss://b'' \<in> set [''wss://a'', ''wss://b'']"
    "''wss://a'' \<noteq> ''wss://b''" by simp_all
  show ?thesis using h publish_ok_then_error_overlap[OF h] by blast
qed

lemma publish_initial_report:
  "pub_out (publish_init urls True) =
     (if urls = [] then [Resolve \<lparr>pr_succeeded = {}, pr_failed = {}, pr_timeouts = {},
                                 pr_completed = {}, pr_pending = {}\<rparr>, PubUnsubscribe, PubCleanup]
      else [OnProgress \<lparr>pr_succeeded = {}, pr_failed = {}, pr_timeouts = {},
                         pr_completed = {}, pr_pending = set urls\<rparr>])"
  by (simp add: publish_init_def attemptToResolve_def getProgress_def Let_def)

lemma first_resolve_run:
  "first_resolve (pub_out s) = Some p \<Longrightarrow> first_resolve (pub_out (pub_run s evs)) = Some p"
proof (induction evs arbitrary: s)
  case Nil then show ?case by simp
next
  case (Cons e evs)
  obtain es where "pub_out (pub_step s e) = pub_out s @ es"
    using pub_out_prefix[of s e] by (auto simp: prefix_def)
  then have "first_resolve (pub_out (pub_step s e)) = Some p"
    using Cons.prems by (simp add: first_resolve_append)
  then show ?case using Cons.IH by simp
qed

lemma attempt_open:
  assumes "pub_urls s = urls" "pub_sub_live s" "pub_timer_armed s" "timeouts s = {}"
    "first_resolve (pub_out s) = None"
  shows "(set urls \<subseteq> succeeded s \<union> failed s \<longrightarrow>
            first_resolve (pub_out (attemptToResolve s)) = Some (resolution urls (succeeded s) (failed s) {}))
    \<and> (\<not> set urls \<subseteq> succeeded s \<union> failed s \<longrightarrow> publish_open urls (attemptToResolve s))"
proof -
  have nr: "\<forall>p. Resolve p \<notin> set (pub_out s)" using assms(5) by simp
  show ?thesis using assms(1-4) nr
    by (auto simp: attemptToResolve_def getProgress_def Let_def resolution_def
        publish_open_def first_resolve_append assms(5))
qed

lemma publish_spec_done:
  "set urls \<subseteq> S \<union> F \<Longrightarrow> publish_spec urls S F evs = Some (resolution urls S F {})"
  by (cases evs) simp_all

lemma publish_open_refines:
  "publish_open urls s \<Longrightarrow>
   first_resolve (pub_out (pub_run s evs)) = publish_spec urls (succeeded s) (failed s) evs"
proof (induction evs arbitrary: s)
  case Nil then show ?case by (simp add: publish_open_def)
next
  case (Cons e evs)
  have o: "pub_urls s = urls" "pub_sub_live s" "pub_timer_armed s" "timeouts s = {}"
    "first_resolve (pub_out s) = None" "\<not> set urls \<subseteq> succeeded s \<union> failed s"
    using Cons.prems by (simp_all add: publish_open_def)
  show ?case
  proof (cases e)
    case (PubOk u)
    let ?t = "s\<lparr>succeeded := insert u (succeeded s), timeouts := timeouts s - {u}, failed := failed s - {u}\<rparr>"
    have a: "(set urls \<subseteq> succeeded ?t \<union> failed ?t \<longrightarrow>
            first_resolve (pub_out (attemptToResolve ?t)) = Some (resolution urls (succeeded ?t) (failed ?t) {}))
      \<and> (\<not> set urls \<subseteq> succeeded ?t \<union> failed ?t \<longrightarrow> publish_open urls (attemptToResolve ?t))"
      by (rule attempt_open) (use o in simp_all)
    have st: "pub_step s e = attemptToResolve ?t" using PubOk o by simp
    show ?thesis
    proof (cases "set urls \<subseteq> succeeded ?t \<union> failed ?t")
      case True
      then have r: "first_resolve (pub_out (attemptToResolve ?t)) = Some (resolution urls (succeeded ?t) (failed ?t) {})"
        using a by simp
      have "first_resolve (pub_out (pub_run (attemptToResolve ?t) evs)) = Some (resolution urls (succeeded ?t) (failed ?t) {})"
        by (rule first_resolve_run[OF r])
      then show ?thesis using st True o PubOk by (simp add: publish_spec_done)
    next
      case False
      then have "publish_open urls (attemptToResolve ?t)" using a by simp
      then show ?thesis using st o PubOk Cons.IH[of "attemptToResolve ?t"] by simp
    qed
  next
    case (PubError u)
    let ?t = "s\<lparr>failed := insert u (failed s), timeouts := timeouts s - {u}\<rparr>"
    have a: "(set urls \<subseteq> succeeded ?t \<union> failed ?t \<longrightarrow>
            first_resolve (pub_out (attemptToResolve ?t)) = Some (resolution urls (succeeded ?t) (failed ?t) {}))
      \<and> (\<not> set urls \<subseteq> succeeded ?t \<union> failed ?t \<longrightarrow> publish_open urls (attemptToResolve ?t))"
      by (rule attempt_open) (use o in simp_all)
    have st: "pub_step s e = attemptToResolve ?t" using PubError o by simp
    show ?thesis
    proof (cases "set urls \<subseteq> succeeded ?t \<union> failed ?t")
      case True
      then have r: "first_resolve (pub_out (attemptToResolve ?t)) = Some (resolution urls (succeeded ?t) (failed ?t) {})"
        using a by simp
      have "first_resolve (pub_out (pub_run (attemptToResolve ?t) evs)) = Some (resolution urls (succeeded ?t) (failed ?t) {})"
        by (rule first_resolve_run[OF r])
      then show ?thesis using st True o PubError by (simp add: publish_spec_done)
    next
      case False
      then have "publish_open urls (attemptToResolve ?t)" using a by simp
      then show ?thesis using st o PubError Cons.IH[of "attemptToResolve ?t"] by simp
    qed
  next
    case PubTimer
    let ?T = "{u \<in> set (pub_urls s). u \<notin> succeeded s \<and> u \<notin> failed s}"
    have T: "?T = set urls - (succeeded s \<union> failed s)" using o by auto
    have "first_resolve (pub_out (pub_step s PubTimer)) =
        Some (resolution urls (succeeded s) (failed s) (set urls - (succeeded s \<union> failed s)))"
      using o T by (simp add: attemptToResolve_def getProgress_def Let_def resolution_def first_resolve_append o(5))
        (auto simp: resolution_def)
    then have "first_resolve (pub_out (pub_run (pub_step s PubTimer) evs)) =
        Some (resolution urls (succeeded s) (failed s) (set urls - (succeeded s \<union> failed s)))"
      by (rule first_resolve_run)
    then show ?thesis using o PubTimer by simp
  qed
qed

text \<open>
  C6: The promise body refines the abstract specification of a publish: for every
  interleaving of answers and the timer, the value the promise resolves with (or that it
  is still pending) is the one publish_spec computes from the answers alone.
\<close>

theorem publish_refines_spec:
  "first_resolve (pub_out (pub_run (publish_init urls h) evs)) = publish_spec urls {} {} evs"
proof (cases "urls = []")
  case True
  then have "first_resolve (pub_out (publish_init urls h)) = Some (resolution urls {} {} {})"
    by (simp add: publish_init_def attemptToResolve_def getProgress_def Let_def resolution_def)
  then have "first_resolve (pub_out (pub_run (publish_init urls h) evs)) = Some (resolution urls {} {} {})"
    by (rule first_resolve_run)
  with True show ?thesis by (simp add: publish_spec_done del: pub_run_simps)
next
  case False
  let ?i = "\<lparr>pub_urls = urls, succeeded = {}, failed = {}, timeouts = {}, pub_sub_live = True,
      pub_timer_armed = True, has_onProgress = h, pub_out = []\<rparr>"
  have "publish_open urls (attemptToResolve ?i)"
    using attempt_open[of ?i urls] False by simp
  then have "first_resolve (pub_out (pub_run (attemptToResolve ?i) evs)) = publish_spec urls {} {} evs"
    using publish_open_refines by fastforce
  then show ?thesis by (simp add: publish_init_def)
qed

lemma pub_step_armed: "pub_timer_armed (pub_step s e) \<Longrightarrow> pub_timer_armed s \<and> e \<noteq> PubTimer"
  by (cases e) (auto split: if_splits)

lemma pub_run_disarmed: "PubTimer \<in> set evs \<Longrightarrow> \<not> pub_timer_armed (pub_run s evs)"
proof (induction evs arbitrary: s)
  case Nil then show ?case by simp
next
  case (Cons e evs)
  have "\<not> pub_timer_armed (pub_run s' evs')" if "\<not> pub_timer_armed s'" for s' evs'
    using that by (induction evs' arbitrary: s') (auto dest: pub_step_armed)
  then show ?case using Cons pub_step_armed[of s e] by (cases "e = PubTimer") auto
qed

lemma pub_step_terminal: "\<not> pub_sub_live s \<Longrightarrow> \<not> pub_timer_armed s \<Longrightarrow> pub_step s e = s"
  by (cases e) simp_all

lemma resolutions_append [simp]: "resolutions (xs @ ys) = resolutions xs + resolutions ys"
  by (simp add: resolutions_def)

lemma resolutions_zero: "resolutions es = 0 \<longleftrightarrow> (\<forall>p. Resolve p \<notin> set es)"
  by (induction es) (auto simp: resolutions_def split: pub_effect.splits)

lemma resolved_resolutions: "resolved s \<longleftrightarrow> 0 < resolutions (pub_out s)"
  by (simp add: resolved_def resolutions_zero[symmetric])

lemma cleanups_attempt:
  "occurrences (pub_out s) PubCleanup = resolutions (pub_out s) \<Longrightarrow>
   occurrences (pub_out (attemptToResolve s)) PubCleanup = resolutions (pub_out (attemptToResolve s))"
  by (simp add: attemptToResolve_def Let_def resolutions_def)

lemma cleanups_step:
  "occurrences (pub_out s) PubCleanup = resolutions (pub_out s) \<Longrightarrow>
   occurrences (pub_out (pub_step s e)) PubCleanup = resolutions (pub_out (pub_step s e))"
  by (cases e) (simp_all add: cleanups_attempt)

lemma cleanups_run:
  "occurrences (pub_out s) PubCleanup = resolutions (pub_out s) \<Longrightarrow>
   occurrences (pub_out (pub_run s evs)) PubCleanup = resolutions (pub_out (pub_run s evs))"
  by (induction evs arbitrary: s) (simp_all add: cleanups_step)

lemma pub_run_armed: "pub_timer_armed s \<Longrightarrow> PubTimer \<notin> set evs \<Longrightarrow> pub_timer_armed (pub_run s evs)"
proof (induction evs arbitrary: s)
  case Nil then show ?case by simp
next
  case (Cons e evs)
  have "pub_timer_armed (pub_step s e)" using Cons.prems by (cases e) simp_all
  then show ?case using Cons by simp
qed

lemma pub_run_terminal: "\<not> pub_sub_live s \<Longrightarrow> \<not> pub_timer_armed s \<Longrightarrow> pub_run s evs = s"
  by (induction evs) (simp_all add: pub_step_terminal)

text \<open>
  C12: Whenever the publish resolves from relay answers before the timer fires, the
  timer is never cleared, so when it fires it resolves, unsubscribes and cleans up the
  target a second time: the run ends with exactly two cleanups, whatever follows.
\<close>

theorem publish_cleanup_twice:
  assumes "PubTimer \<notin> set evs" "resolved (pub_run (publish_init urls h) evs)"
  shows "occurrences (pub_out (pub_run (publish_init urls h) (evs @ PubTimer # rest))) PubCleanup = 2"
proof -
  let ?s = "pub_run (publish_init urls h) evs"
  have c0: "occurrences (pub_out (publish_init urls h)) PubCleanup = resolutions (pub_out (publish_init urls h))"
    by (rule cleanups_attempt[of "\<lparr>pub_urls = urls, succeeded = {}, failed = {}, timeouts = {}, pub_sub_live = True,
      pub_timer_armed = True, has_onProgress = h, pub_out = []\<rparr>", unfolded publish_init_def[symmetric]])
      (simp add: resolutions_def)
  have inv: "pub_inv ?s" by (rule pub_inv_run[OF pub_inv_init])
  have armed: "pub_timer_armed ?s"
    using assms(1) by (intro pub_run_armed) (simp_all add: publish_init_def)
  have dead: "\<not> pub_sub_live ?s" using inv assms(2) by (simp add: pub_inv_def)
  have "occurrences (pub_out ?s) PubCleanup \<le> 1" using inv armed dead by (simp add: pub_inv_def)
  moreover have "occurrences (pub_out ?s) PubCleanup = resolutions (pub_out ?s)" by (rule cleanups_run[OF c0])
  ultimately have one: "occurrences (pub_out ?s) PubCleanup = 1"
    using assms(2) by (simp add: resolved_resolutions)
  let ?t = "pub_step ?s PubTimer"
  have "pr_pending (getProgress (?s\<lparr>timeouts := timeouts ?s \<union>
      {u \<in> set (pub_urls ?s). u \<notin> succeeded ?s \<and> u \<notin> failed ?s}, pub_timer_armed := False\<rparr>)) = {}"
    by (auto simp: getProgress_def Let_def)
  then have t: "pub_out ?t = pub_out ?s @ [Resolve (getProgress (?s\<lparr>timeouts := timeouts ?s \<union>
      {u \<in> set (pub_urls ?s). u \<notin> succeeded ?s \<and> u \<notin> failed ?s}, pub_timer_armed := False\<rparr>)), PubUnsubscribe, PubCleanup]"
    "\<not> pub_sub_live ?t" "\<not> pub_timer_armed ?t"
    using armed dead by (simp_all add: attemptToResolve_def Let_def)
  have "pub_run (publish_init urls h) (evs @ PubTimer # rest) = pub_run ?t rest"
    by (simp add: pub_run_def)
  also have "\<dots> = ?t" using t(2,3) by (rule pub_run_terminal)
  finally show ?thesis using t(1) one by simp
qed

theorem publish_cleanup_twice_witness:
  "occurrences (pub_out (pub_run (publish_init [''wss://a''] False) ([PubOk ''wss://a''] @ PubTimer # [PubError ''wss://a'']))) PubCleanup = 2"
proof -
  have "resolved (pub_run (publish_init [''wss://a''] False) [PubOk ''wss://a''])"
    by (simp add: publish_init_def attemptToResolve_def getProgress_def resolved_def Let_def)
  then show ?thesis by (rule publish_cleanup_twice[rotated]) simp
qed

text \<open>
  C8: Once the publish timer fires, the promise has resolved and the coordinator has
  terminated: every further input, answer or timer, leaves its state unchanged.
\<close>

theorem publish_terminates_on_timer:
  "PubTimer \<in> set evs \<Longrightarrow>
   resolved (pub_run (publish_init urls h) evs)
   \<and> (\<forall>e. pub_step (pub_run (publish_init urls h) evs) e = pub_run (publish_init urls h) evs)"
proof -
  assume t: "PubTimer \<in> set evs"
  let ?s = "pub_run (publish_init urls h) evs"
  have r: "resolved ?s" using t by (rule resolves_on_timer_from[OF pub_inv_init])
  have "pub_inv ?s" by (rule pub_inv_run[OF pub_inv_init])
  then have "\<not> pub_sub_live ?s" using r by (simp add: pub_inv_def)
  moreover have "\<not> pub_timer_armed ?s" using t by (rule pub_run_disarmed)
  ultimately show ?thesis using r pub_step_terminal by blast
qed

theorem publish_terminates_on_timer_witness:
  "resolved (pub_run (publish_init [''wss://a'', ''wss://b''] True) [PubOk ''wss://a'', PubTimer])
   \<and> (\<forall>e. pub_step (pub_run (publish_init [''wss://a'', ''wss://b''] True) [PubOk ''wss://a'', PubTimer]) e
          = pub_run (publish_init [''wss://a'', ''wss://b''] True) [PubOk ''wss://a'', PubTimer])"
proof -
  have h: "PubTimer \<in> set [PubOk ''wss://a'', PubTimer]" by simp
  show ?thesis using publish_terminates_on_timer[OF h] .
qed

lemma resolved_attempt_iff:
  "first_resolve (pub_out t) = None \<Longrightarrow> resolved (attemptToResolve t) \<longleftrightarrow> pr_pending (getProgress t) = {}"
  unfolding resolved_def attemptToResolve_def Let_def
  by (simp add: first_resolve_append del: first_resolve_None_iff)

lemma attempt_effects:
  assumes "first_resolve (pub_out t) = None" "has_onProgress t"
  shows "drop (length (pub_out t)) (pub_out (attemptToResolve t)) =
     (if resolved (attemptToResolve t) then [Resolve (getProgress t), PubUnsubscribe, PubCleanup]
      else [OnProgress (getProgress t)])"
  using assms(2) by (simp add: resolved_attempt_iff[OF assms(1)]) (simp add: attemptToResolve_def Let_def)

lemma getProgress_attempt [simp]: "getProgress (attemptToResolve t) = getProgress t"
  by (simp add: getProgress_def)

text \<open>
  C11: While the publish is open and onProgress is given, each answer or timer appends
  either one progress report or the resolution (resolve, unsubscribe, cleanup), never
  both, so the transition that completes the publish reports no progress.
\<close>

theorem publish_step_reports:
  assumes "publish_open urls s" "has_onProgress s"
  shows "drop (length (pub_out s)) (pub_out (pub_step s i)) =
     (if resolved (pub_step s i) then [Resolve (getProgress (pub_step s i)), PubUnsubscribe, PubCleanup]
      else [OnProgress (getProgress (pub_step s i))])"
proof -
  have o: "pub_sub_live s" "pub_timer_armed s" "first_resolve (pub_out s) = None"
    using assms(1) by (simp_all add: publish_open_def)
  have a: "drop (length (pub_out t)) (pub_out (attemptToResolve t)) =
     (if resolved (attemptToResolve t) then [Resolve (getProgress t), PubUnsubscribe, PubCleanup]
      else [OnProgress (getProgress t)])" if "pub_out t = pub_out s" "has_onProgress t" for t
    using attempt_effects[of t] that o(3) by simp
  show ?thesis
  proof (cases i)
    case (PubOk u)
    then show ?thesis using o assms(2) a[of "s\<lparr>succeeded := insert u (succeeded s), timeouts := timeouts s - {u},
                               failed := failed s - {u}\<rparr>"] by simp
  next
    case (PubError u)
    then show ?thesis using o assms(2) a[of "s\<lparr>failed := insert u (failed s), timeouts := timeouts s - {u}\<rparr>"] by simp
  next
    case PubTimer
    then show ?thesis using o assms(2) a[of "s\<lparr>timeouts := timeouts s \<union>
               {u \<in> set (pub_urls s). u \<notin> succeeded s \<and> u \<notin> failed s}, pub_timer_armed := False\<rparr>"] by simp
  qed
qed

theorem publish_step_reports_witness:
  "drop (length (pub_out (publish_init [''wss://a''] True))) (pub_out (pub_step (publish_init [''wss://a''] True) (PubOk ''wss://a'')))
     = [Resolve \<lparr>pr_succeeded = {''wss://a''}, pr_failed = {}, pr_timeouts = {}, pr_completed = {''wss://a''}, pr_pending = {}\<rparr>,
        PubUnsubscribe, PubCleanup]"
proof -
  have h: "publish_open [''wss://a''] (publish_init [''wss://a''] True)" "has_onProgress (publish_init [''wss://a''] True)"
    by (simp_all add: publish_open_def publish_init_def attemptToResolve_def getProgress_def Let_def)
  have r: "resolved (pub_step (publish_init [''wss://a''] True) (PubOk ''wss://a''))"
    by (simp add: publish_init_def attemptToResolve_def getProgress_def Let_def resolved_def first_resolve_append)
  have g: "getProgress (pub_step (publish_init [''wss://a''] True) (PubOk ''wss://a'')) =
      \<lparr>pr_succeeded = {''wss://a''}, pr_failed = {}, pr_timeouts = {}, pr_completed = {''wss://a''}, pr_pending = {}\<rparr>"
    by (simp add: publish_init_def attemptToResolve_def getProgress_def Let_def)
  show ?thesis using publish_step_reports[OF h, of "PubOk ''wss://a''"] r g by simp
qed

end
