(* ===== verification/Filters.thy ===== *)
theory Filters
  imports Prelude
begin

text \<open>
  Filters and their preprocessing in the routing planner,
  \<open>src/engine/network/utils/filters.ts\<close>: the \<open>FilterScope\<close> enum, scope
  compilation (\<open>compileFilters\<close>, lines 25--56) and repost expansion
  (\<open>addRepostFilters\<close>, lines 58--77). A filter is the record of the fields the
  planner reads; a missing field is \<open>None\<close>, so JavaScript truthiness of an
  array field is \<open>\<noteq> None\<close> (an empty array is truthy). The social graph the
  scopes read (\<open>user\<close>, \<open>getFollowedPubkeys\<close>, \<open>getNetwork\<close>,
  \<open>DEFAULT_FOLLOWS\<close>) and the random \<open>shuffle\<close> are the context \<open>scope_ctx\<close>.
\<close>

datatype filter_scope = Follows | Network | FollowsAndNetwork | FollowsAndSelf | Custom | Global

record filter =
  f_ids :: "string list option"
  f_kinds :: "nat list option"
  f_authors :: "pubkey list option"
  f_since :: "nat option"
  f_until :: "nat option"
  f_limit :: "nat option"
  f_search :: "string option"
  f_tag_a :: "string list option"
  f_tag_k :: "string list option"

record dynamic_filter = filter +
  scope :: "filter_scope option"

record scope_ctx =
  user_pubkey :: "pubkey option"
  followed :: "pubkey list"
  network :: "pubkey list"
  default_follows :: "pubkey list"
  shuffle :: "pubkey list \<Rightarrow> pubkey list"

definition max_authors :: nat where
  "max_authors = 1000"

text \<open>
  The \<open>switcherFn\<close> of lines 35--49. It is only reached for the four scopes that
  name a pubkey set; the two others are returned unchanged before it.
\<close>

fun scope_pubkeys :: "scope_ctx \<Rightarrow> filter_scope \<Rightarrow> pubkey list" where
  "scope_pubkeys c Follows = shuffle c (followed c)"
| "scope_pubkeys c Network = shuffle c (network c)"
| "scope_pubkeys c FollowsAndNetwork = shuffle c (followed c @ network c)"
| "scope_pubkeys c FollowsAndSelf =
     shuffle c (followed c) @ (case user_pubkey c of None \<Rightarrow> [] | Some u \<Rightarrow> [u])"
| "scope_pubkeys c Custom = []"
| "scope_pubkeys c Global = []"

definition compile_filter :: "scope_ctx \<Rightarrow> dynamic_filter \<Rightarrow> filter" where
  "compile_filter c d =
     (let f = filter.truncate d in
      case scope d of
        None \<Rightarrow> f
      | Some sc \<Rightarrow>
          (if f_authors f \<noteq> None \<or> sc \<in> {Global, Custom} then f
           else let pubkeys = scope_pubkeys c sc;
                    pubkeys' = (if pubkeys = [] then default_follows c else pubkeys)
                in f\<lparr>f_authors := Some (take max_authors pubkeys')\<rparr>))"

definition compileFilters :: "scope_ctx \<Rightarrow> dynamic_filter list \<Rightarrow> filter list" where
  "compileFilters c ds = map (compile_filter c) ds"

text \<open>\<open>String(n)\<close> for the kinds copied into the \<open>#k\<close> tag.\<close>

fun string_of_nat :: "nat \<Rightarrow> string" where
  "string_of_nat n =
     (if n < 10 then [char_of (48 + n)] else string_of_nat (n div 10) @ [char_of (48 + n mod 10)])"

definition repost_kind :: nat where "repost_kind = 6"
definition generic_repost_kind :: nat where "generic_repost_kind = 16"

text \<open>
  Lines 59--76: the original filter, then the repost carriers. No kind restriction:
  both repost kinds. Otherwise: kind 6 when kind 1 is asked for, and kind 16 tagged
  with the other kinds when there are any.
\<close>

definition repost_chunk :: "filter \<Rightarrow> filter list" where
  "repost_chunk f =
     [f] @ (case f_kinds f of
              None \<Rightarrow> [f\<lparr>f_kinds := Some [repost_kind, generic_repost_kind]\<rparr>]
            | Some ks \<Rightarrow>
                (if 1 \<in> set ks then [f\<lparr>f_kinds := Some [repost_kind]\<rparr>] else [])
                @ (let other = filter (\<lambda>k. k \<noteq> 1) ks in
                   if other \<noteq> [] then [f\<lparr>f_kinds := Some [generic_repost_kind],
                                          f_tag_k := Some (map string_of_nat other)\<rparr>]
                   else []))"

definition addRepostFilters :: "filter list \<Rightarrow> filter list" where
  "addRepostFilters fs = concat (map repost_chunk fs)"

text \<open>An example social graph (the shuffle reverses) and a dynamic filter of a given scope, used by the examples below.\<close>

definition example_ctx :: scope_ctx where
  "example_ctx = \<lparr>user_pubkey = Some ''me'', followed = [''p1'', ''p2''], network = [''p3''],
     default_follows = [''d1''], shuffle = (\<lambda>xs. rev xs)\<rparr>"

definition example_dyn :: "filter_scope option \<Rightarrow> dynamic_filter" where
  "example_dyn sc = \<lparr>f_ids = None, f_kinds = Some [1, 7], f_authors = None, f_since = None,
     f_until = None, f_limit = Some 20, f_search = None, f_tag_a = None, f_tag_k = None, scope = sc\<rparr>"

subsection \<open>Lemmas\<close>

declare string_of_nat.simps [simp del]

lemma truncate_fields [simp]:
  "f_kinds (filter.truncate d) = f_kinds d" "f_authors (filter.truncate d) = f_authors d"
  "f_search (filter.truncate d) = f_search d" "f_tag_a (filter.truncate d) = f_tag_a d"
  by (simp_all add: filter.truncate_def)

lemma compile_filter_keeps:
  "f_kinds (compile_filter c d) = f_kinds d \<and> f_search (compile_filter c d) = f_search d
   \<and> f_tag_a (compile_filter c d) = f_tag_a d"
  by (simp add: compile_filter_def Let_def split: option.splits)


lemma repost_chunk_hd: "hd (repost_chunk f) = f"
  by (simp add: repost_chunk_def)

lemma repost_chunk_length: "1 \<le> length (repost_chunk f) \<and> length (repost_chunk f) \<le> 3"
  by (simp add: repost_chunk_def Let_def split: option.splits)

text \<open>
  C26: Every filter addRepostFilters adds for an original differs from it only in kinds
  and #k, asks for repost kinds only, and a generic-repost filter is tagged with the
  original's kinds other than 1.
\<close>

theorem repost_variants:
  "\<forall>g \<in> set (tl (repost_chunk f)).
     g\<lparr>f_kinds := f_kinds f, f_tag_k := f_tag_k f\<rparr> = f
     \<and> f_kinds g \<in> {Some [repost_kind, generic_repost_kind], Some [repost_kind], Some [generic_repost_kind]}
     \<and> (case f_kinds f of None \<Rightarrow> True
        | Some ks \<Rightarrow> f_kinds g = Some [generic_repost_kind] \<longrightarrow>
            f_tag_k g = Some (map string_of_nat (filter (\<lambda>k. k \<noteq> 1) ks)))"
  by (auto simp: repost_chunk_def Let_def repost_kind_def generic_repost_kind_def split: option.splits if_splits)

theorem repost_variants_witness:
  "(filter.truncate (example_dyn None))\<lparr>f_kinds := Some [generic_repost_kind], f_tag_k := Some [''7'']\<rparr> \<in> set (tl (repost_chunk (filter.truncate (example_dyn None))))
   \<and> (filter.truncate (example_dyn None))\<lparr>f_kinds := Some [generic_repost_kind], f_tag_k := Some [''7'']\<rparr>\<lparr>f_kinds := f_kinds (filter.truncate (example_dyn None)), f_tag_k := f_tag_k (filter.truncate (example_dyn None))\<rparr>
       = filter.truncate (example_dyn None)
   \<and> f_tag_k ((filter.truncate (example_dyn None))\<lparr>f_kinds := Some [generic_repost_kind], f_tag_k := Some [''7'']\<rparr>)
       = Some (map string_of_nat (filter (\<lambda>k. k \<noteq> 1) [1, 7]))"
proof -
  let ?g = "(filter.truncate (example_dyn None))\<lparr>f_kinds := Some [generic_repost_kind], f_tag_k := Some [''7'']\<rparr>"
  have g: "?g \<in> set (tl (repost_chunk (filter.truncate (example_dyn None))))"
    by (simp add: repost_chunk_def example_dyn_def filter.truncate_def string_of_nat.simps Let_def, code_simp)
  have k: "f_kinds (filter.truncate (example_dyn None)) = Some [1, 7]" by (simp add: example_dyn_def filter.truncate_def)
  have "?g\<lparr>f_kinds := f_kinds (filter.truncate (example_dyn None)), f_tag_k := f_tag_k (filter.truncate (example_dyn None))\<rparr> = filter.truncate (example_dyn None)
     \<and> (case f_kinds (filter.truncate (example_dyn None)) of None \<Rightarrow> True
        | Some ks \<Rightarrow> f_kinds ?g = Some [generic_repost_kind] \<longrightarrow>
            f_tag_k ?g = Some (map string_of_nat (filter (\<lambda>k. k \<noteq> 1) ks)))"
    using bspec[OF repost_variants g] by blast
  with g k show ?thesis by simp
qed

lemma addRepostFilters_bounds:
  "set fs \<subseteq> set (addRepostFilters fs) \<and> length fs \<le> length (addRepostFilters fs)
   \<and> length (addRepostFilters fs) \<le> 3 * length fs"
proof (induction fs)
  case Nil then show ?case by (simp add: addRepostFilters_def)
next
  case (Cons f fs)
  have "f \<in> set (repost_chunk f)" by (simp add: repost_chunk_def)
  with Cons repost_chunk_length[of f] show ?case by (auto simp: addRepostFilters_def)
qed

lemma compile_filter_scope:
  "filter.truncate d = (compile_filter c d)\<lparr>f_authors := f_authors d\<rparr>
   \<and> (f_authors d \<noteq> None \<or> scope d \<in> {None, Some Global, Some Custom} \<longrightarrow> compile_filter c d = filter.truncate d)
   \<and> (case f_authors (compile_filter c d) of None \<Rightarrow> True
      | Some as \<Rightarrow> f_authors d = Some as \<or> length as \<le> max_authors)"
  by (auto simp: compile_filter_def Let_def filter.truncate_def split: option.splits)

text \<open>
  C27: For the follows-and-self scope with no authors and fewer than 1000 follows, the
  compiled authors are the user's follows (in some order) and the user.
\<close>

theorem compile_follows_and_self:
  assumes "\<forall>xs. mset (shuffle c xs) = mset xs" "f_authors d = None" "scope d = Some FollowsAndSelf"
    "user_pubkey c = Some u" "length (followed c) < max_authors"
  shows "\<exists>as. f_authors (compile_filter c d) = Some as \<and> mset as = mset (followed c) + {#u#}"
proof -
  have len: "length (shuffle c (followed c)) = length (followed c)"
    using assms(1) by (metis size_mset)
  show ?thesis using assms len by (auto simp: compile_filter_def Let_def)
qed

theorem compile_follows_and_self_witness:
  "(\<forall>xs. mset (shuffle example_ctx xs) = mset xs) \<and> f_authors (example_dyn (Some FollowsAndSelf)) = None
   \<and> scope (example_dyn (Some FollowsAndSelf)) = Some FollowsAndSelf \<and> user_pubkey example_ctx = Some ''me''
   \<and> length (followed example_ctx) < max_authors
   \<and> (\<exists>as. f_authors (compile_filter example_ctx (example_dyn (Some FollowsAndSelf))) = Some as
        \<and> mset as = mset (followed example_ctx) + {#''me''#})"
proof -
  have h: "\<forall>xs. mset (shuffle example_ctx xs) = mset xs" "f_authors (example_dyn (Some FollowsAndSelf)) = None"
    "scope (example_dyn (Some FollowsAndSelf)) = Some FollowsAndSelf" "user_pubkey example_ctx = Some ''me''"
    "length (followed example_ctx) < max_authors"
    by (simp_all add: example_ctx_def example_dyn_def max_authors_def)
  show ?thesis using h compile_follows_and_self[OF h] by blast
qed

lemma compile_empty_scope_defaults:
  assumes "f_authors d = None" "scope d = Some sc" "sc \<notin> {Global, Custom}" "scope_pubkeys c sc = []"
  shows "f_authors (compile_filter c d) = Some (take max_authors (default_follows c))"
  using assms by (simp add: compile_filter_def)

end
