(* ===== verification/Selections.thy ===== *)
theory Selections
  imports Filters
begin

text \<open>
  The relay assignment of the routing planner: \<open>getFilterSelections\<close> of
  \<open>src/engine/network/utils/filters.ts\<close> (lines 84--153). The routing hints
  (\<open>hints\<close> of \<open>src/engine/relays/utils\<close>), the filter utilities of
  \<open>@coracle.social/util\<close> (\<open>getFilterId\<close>, \<open>mergeFilters\<close>,
  \<open>isContextAddress\<close> of \<open>decodeAddress\<close>) and the two settings are external; they
  form the interface record \<open>router\<close>, each field standing for the one call the
  code makes. A scenario (\<open>hints.product(ids, relays)\<close>) is a pair of filter ids
  and relays; a selection is a relay and the filters routed to it.

  \<open>filtersById.get(id) as Filter\<close> yields \<open>undefined\<close> for an id the merged
  scenarios invent, and the sort key dereferences the first filter of every
  selection; the model reports both as errors instead of carrying \<open>undefined\<close>.
\<close>

type_synonym filter_id = string
type_synonym scenario = "filter_id list \<times> url list"

record router =
  search_relays :: "url list"
  context_selections :: "string list \<Rightarrow> (url \<times> string list) list"
  pubkey_selections :: "pubkey list \<Rightarrow> (url \<times> pubkey list) list"
  read_relays :: "url list"
  merge_scenarios :: "scenario list \<Rightarrow> (url \<times> filter_id list) list"
  is_context_address :: "string \<Rightarrow> bool"
  getFilterId :: "filter \<Rightarrow> filter_id"
  mergeFilters :: "filter list \<Rightarrow> filter list"
  relay_limit :: nat
  relay_redundancy :: nat

record relay_filters =
  rf_relay :: url
  rf_filters :: "filter list"

datatype selection_error = MissingFilter filter_id | EmptySelection url

text \<open>
  One iteration of the loop of lines 91--131: record each (sub-)filter under its id
  and add its scenario. The branches follow the code's order: search, context
  addresses, authors, and the read relays.
\<close>

definition add_scenario :: "router \<Rightarrow> (filter_id \<rightharpoonup> filter) \<times> scenario list \<Rightarrow> filter \<Rightarrow> url list
    \<Rightarrow> (filter_id \<rightharpoonup> filter) \<times> scenario list" where
  "add_scenario r acc f relays =
     (let id = getFilterId r f in ((fst acc)(id \<mapsto> f), snd acc @ [([id], relays)]))"

definition has_search :: "filter \<Rightarrow> bool" where
  "has_search f = (case f_search f of None \<Rightarrow> False | Some s \<Rightarrow> s \<noteq> [])"

definition contexts_of :: "router \<Rightarrow> filter \<Rightarrow> string list" where
  "contexts_of r f = (case f_tag_a f of None \<Rightarrow> [] | Some as \<Rightarrow> filter (is_context_address r) as)"

definition route_filter :: "router \<Rightarrow> (filter_id \<rightharpoonup> filter) \<times> scenario list \<Rightarrow> filter
    \<Rightarrow> (filter_id \<rightharpoonup> filter) \<times> scenario list" where
  "route_filter r acc f =
     (if has_search f then add_scenario r acc f (search_relays r)
      else if contexts_of r f \<noteq> [] then
        foldl (\<lambda>a (relay, values). add_scenario r a (f\<lparr>f_tag_a := Some values\<rparr>) [relay])
          acc (context_selections r (contexts_of r f))
      else case f_authors f of
        Some authors \<Rightarrow>
          foldl (\<lambda>a (relay, values). add_scenario r a (f\<lparr>f_authors := Some values\<rparr>) [relay])
            acc (pubkey_selections r authors)
      | None \<Rightarrow> add_scenario r acc f (read_relays r))"

definition route_all :: "router \<Rightarrow> filter list \<Rightarrow> (filter_id \<rightharpoonup> filter) \<times> scenario list" where
  "route_all r fs = foldl (route_filter r) (Map.empty, []) fs"

text \<open>\<open>values.map(id => filtersById.get(id))\<close>, failing on an unknown id.\<close>

fun lookup_filters :: "(filter_id \<rightharpoonup> filter) \<Rightarrow> filter_id list \<Rightarrow> selection_error + filter list" where
  "lookup_filters m [] = Inr []"
| "lookup_filters m (i # is') = (case m i of
      None \<Rightarrow> Inl (MissingFilter i)
    | Some f \<Rightarrow> (case lookup_filters m is' of Inl e \<Rightarrow> Inl e | Inr fs \<Rightarrow> Inr (f # fs)))"

fun lookup_selections :: "(filter_id \<rightharpoonup> filter) \<Rightarrow> (url \<times> filter_id list) list
    \<Rightarrow> selection_error + relay_filters list" where
  "lookup_selections m [] = Inr []"
| "lookup_selections m ((relay, ids) # rest) = (case lookup_filters m ids of
      Inl e \<Rightarrow> Inl e
    | Inr fs \<Rightarrow> (case lookup_selections m rest of
        Inl e \<Rightarrow> Inl e
      | Inr sels \<Rightarrow> Inr (\<lparr>rf_relay = relay, rf_filters = fs\<rparr> # sels)))"

text \<open>
  The sort key of line 134, \<open>-filters[0].authors?.length\<close>: \<open>None\<close> is \<open>NaN\<close>
  (no authors), and an empty selection has no first filter. The comparator only
  runs when there are at least two selections, so only then does an empty one
  raise.
\<close>

definition selection_key :: "relay_filters \<Rightarrow> selection_error + int option" where
  "selection_key s = (case rf_filters s of
      [] \<Rightarrow> Inl (EmptySelection (rf_relay s))
    | f # _ \<Rightarrow> Inr (case f_authors f of None \<Rightarrow> None | Some as \<Rightarrow> Some (- int (length as))))"

text \<open>
  Ramda's \<open>sortBy\<close> hands \<open>Array.prototype.sort\<close> a comparator that answers
  -1, 1 or 0 from \<open><\<close> and \<open>>\<close> on the keys; the sort is stable. The model sorts by
  stable insertion with that comparison. For numeric keys every stable sort gives this
  result (\<open>js_sort_by_eq_sort_key\<close>), so the model is exact there. A selection without
  authors has the key \<open>NaN\<close> (here \<open>None\<close>), which compares equal to every key; such a
  comparator is inconsistent, the order ECMAScript then gives is
  implementation-defined, and the order the model computes need not be the one an
  engine computes (V8 and SpiderMonkey order [-1, NaN, -3] as [-1, NaN, -3]; the
  model gives [-3, -1, NaN]). The lemmas below on the sorted order assume numeric
  keys; the others hold for every order of the selections.
\<close>

fun js_less :: "int option \<Rightarrow> int option \<Rightarrow> bool" where
  "js_less (Some a) (Some b) = (a < b)"
| "js_less _ _ = False"

fun ins_by :: "('a \<Rightarrow> int option) \<Rightarrow> 'a \<Rightarrow> 'a list \<Rightarrow> 'a list" where
  "ins_by k x [] = [x]"
| "ins_by k x (y # ys) = (if js_less (k x) (k y) then x # y # ys else y # ins_by k x ys)"

definition js_sort_by :: "('a \<Rightarrow> int option) \<Rightarrow> 'a list \<Rightarrow> 'a list" where
  "js_sort_by k xs = foldl (\<lambda>acc x. ins_by k x acc) [] xs"

definition sort_selections :: "relay_filters list \<Rightarrow> selection_error + relay_filters list" where
  "sort_selections sels =
     (if length sels < 2 then Inr sels
      else case find (\<lambda>s. rf_filters s = []) sels of
        Some s \<Rightarrow> Inl (EmptySelection (rf_relay s))
      | None \<Rightarrow> Inr (js_sort_by (\<lambda>s. case selection_key s of Inl _ \<Rightarrow> None | Inr k \<Rightarrow> k) sels))"

text \<open>
  Lines 146--152: keep the first \<open>relay_limit\<close> selections; the first
  \<open>relay_redundancy\<close> of them also take the filters of every discarded selection,
  merged by \<open>mergeFilters\<close> (\<open>discard.concat(target)\<close> puts the target's own
  filters last).
\<close>

definition compress :: "router \<Rightarrow> relay_filters list \<Rightarrow> relay_filters list" where
  "compress r sels =
     (let keep = take (relay_limit r) sels; discard = drop (relay_limit r) sels
      in map (\<lambda>(i, t). if i < relay_redundancy r
                        then t\<lparr>rf_filters := mergeFilters r (concat (map rf_filters (discard @ [t])))\<rparr>
                        else t)
             (zip [0..<length keep] keep))"

definition selections_of :: "router \<Rightarrow> filter list \<Rightarrow> selection_error + relay_filters list" where
  "selections_of r fs =
     (let (byId, scenarios) = route_all r fs
      in case lookup_selections byId (merge_scenarios r scenarios) of
           Inl e \<Rightarrow> Inl e
         | Inr sels \<Rightarrow> sort_selections sels)"

definition getFilterSelections :: "router \<Rightarrow> filter list \<Rightarrow> selection_error + relay_filters list" where
  "getFilterSelections r fs = (case selections_of r fs of
      Inl e \<Rightarrow> Inl e
    | Inr sels \<Rightarrow> Inr (compress r sels))"

definition scenarios_registered :: "(filter_id \<rightharpoonup> filter) \<times> scenario list \<Rightarrow> bool" where
  "scenarios_registered acc = (\<forall>x \<in> set (snd acc). set (fst x) \<subseteq> dom (fst acc))"

definition merge_contract :: "router \<Rightarrow> bool" where
  "merge_contract r = (\<forall>sc relay ids. (relay, ids) \<in> set (merge_scenarios r sc) \<longrightarrow>
      ids \<noteq> [] \<and> set ids \<subseteq> (\<Union>x \<in> set sc. set (fst x)))"

text \<open>
  An example router: one relay per author (\<open>wss://\<close> followed by the pubkey), a
  merge that keeps every scenario relay, an identity \<open>mergeFilters\<close>, a limit of two
  relays and a redundancy of one; and a filter with three authors.
\<close>

definition example_router :: router where
  "example_router = \<lparr>search_relays = [''wss://search''], context_selections = (\<lambda>cs. []),
     pubkey_selections = (\<lambda>as. map (\<lambda>a. (''wss://'' @ a, [a])) as), read_relays = [''wss://read''],
     merge_scenarios = (\<lambda>sc. concat (map (\<lambda>(ids, rs). if ids = [] then [] else map (\<lambda>u. (u, ids)) rs) sc)),
     is_context_address = (\<lambda>a. False),
     getFilterId = (\<lambda>f. case f_authors f of None \<Rightarrow> ''all'' | Some as \<Rightarrow> concat as),
     mergeFilters = (\<lambda>gs. gs), relay_limit = 2, relay_redundancy = 1\<rparr>"

definition example_authors_filter :: filter where
  "example_authors_filter = \<lparr>f_ids = None, f_kinds = Some [1], f_authors = Some [''p'', ''q'', ''r''],
     f_since = None, f_until = None, f_limit = None, f_search = None, f_tag_a = None, f_tag_k = None\<rparr>"

subsection \<open>Lemmas\<close>


lemma mset_ins_by [simp]: "mset (ins_by k x acc) = add_mset x (mset acc)"
  by (induction acc) auto

lemma set_ins_by [simp]: "set (ins_by k x acc) = insert x (set acc)"
  using mset_ins_by[of k x acc] by (metis set_mset_add_mset_insert set_mset_mset)

lemma ins_by_cong:
  "\<forall>y \<in> insert x (set acc). k y = k' y \<Longrightarrow> ins_by k x acc = ins_by k' x acc"
  by (induction acc) auto

lemma foldl_ins_by_cong:
  "\<forall>y \<in> set xs \<union> set acc. k y = k' y \<Longrightarrow>
   foldl (\<lambda>a x. ins_by k x a) acc xs = foldl (\<lambda>a x. ins_by k' x a) acc xs"
proof (induction xs arbitrary: acc)
  case Nil then show ?case by simp
next
  case (Cons x xs)
  have "ins_by k x acc = ins_by k' x acc" using Cons.prems by (intro ins_by_cong) auto
  moreover have "\<forall>y \<in> set xs \<union> set (ins_by k x acc). k y = k' y" using Cons.prems by auto
  ultimately show ?case using Cons.IH by simp
qed

lemma sorted_ins_by:
  "sorted (map g acc) \<Longrightarrow> sorted (map g (ins_by (\<lambda>y. Some (g y)) x acc))"
proof (induction acc)
  case Nil then show ?case by simp
next
  case (Cons y ys)
  show ?case
  proof (cases "g x < g y")
    case True
    with Cons.prems show ?thesis by auto
  next
    case False
    have "sorted (map g (ins_by (\<lambda>y. Some (g y)) x ys))" using Cons by simp
    moreover have "\<forall>z \<in> set (ins_by (\<lambda>y. Some (g y)) x ys). g y \<le> g z"
      using Cons.prems False by auto
    ultimately show ?thesis using False by simp
  qed
qed

lemma filter_ins_by:
  "sorted (map g acc) \<Longrightarrow>
   filter (\<lambda>y. g y = c) (ins_by (\<lambda>y. Some (g y)) x acc)
     = filter (\<lambda>y. g y = c) acc @ (if g x = c then [x] else [])"
proof (induction acc)
  case Nil then show ?case by simp
next
  case (Cons y ys)
  show ?case
  proof (cases "g x < g y")
    case True
    then have "g x = c \<Longrightarrow> filter (\<lambda>y. g y = c) (y # ys) = []"
      using Cons.prems by (auto simp: filter_empty_conv)
    with True show ?thesis by auto
  next
    case False
    with Cons show ?thesis by simp
  qed
qed

lemma foldl_ins_by_props:
  "sorted (map g acc) \<Longrightarrow>
     sorted (map g (foldl (\<lambda>a x. ins_by (\<lambda>y. Some (g y)) x a) acc xs))
   \<and> mset (foldl (\<lambda>a x. ins_by (\<lambda>y. Some (g y)) x a) acc xs) = mset acc + mset xs
   \<and> filter (\<lambda>y. g y = c) (foldl (\<lambda>a x. ins_by (\<lambda>y. Some (g y)) x a) acc xs)
       = filter (\<lambda>y. g y = c) acc @ filter (\<lambda>y. g y = c) xs"
proof (induction xs arbitrary: acc)
  case Nil then show ?case by simp
next
  case (Cons x xs)
  have s: "sorted (map g (ins_by (\<lambda>y. Some (g y)) x acc))" using Cons.prems by (rule sorted_ins_by)
  show ?case using Cons.IH[OF s] filter_ins_by[OF Cons.prems, of c x] by simp
qed

lemma js_sort_by_eq_sort_key:
  "\<forall>x \<in> set xs. k x = Some (g x) \<Longrightarrow> js_sort_by k xs = sort_key g xs"
proof -
  assume keys: "\<forall>x \<in> set xs. k x = Some (g x)"
  let ?ys = "foldl (\<lambda>a x. ins_by (\<lambda>y. Some (g y)) x a) [] xs"
  have eq: "js_sort_by k xs = ?ys"
    unfolding js_sort_by_def using keys by (intro foldl_ins_by_cong) simp
  have p: "sorted (map g ?ys) \<and> mset ?ys = mset xs
         \<and> filter (\<lambda>y. g y = c) ?ys = filter (\<lambda>y. g y = c) xs" for c
    using foldl_ins_by_props[of g "[]" xs c] by simp
  have "sort_key g xs = ?ys"
  proof (rule properties_for_sort_key)
    show "mset ?ys = mset xs" using p by blast
    show "sorted (map g ?ys)" using p by blast
    fix z
    show "filter (\<lambda>x. g z = g x) ?ys = filter (\<lambda>x. g z = g x) xs"
      using p[of "g z"] by (metis (mono_tags, lifting) filter_cong)
  qed
  with eq show ?thesis by simp
qed

text \<open>
  C24: When the first filter of every selection has authors, the planner's sort (Ramda's
  sortBy under JavaScript comparison) is the stable sort_key by descending number of
  authors, and raises no error.
\<close>

theorem sort_selections_by_authors:
  assumes "\<forall>s \<in> set sels. \<exists>f fs as. rf_filters s = f # fs \<and> f_authors f = Some as"
  shows "sort_selections sels = Inr (sort_key (\<lambda>s. - int (length (the (f_authors (hd (rf_filters s)))))) sels)"
proof (cases "length sels < 2")
  case True
  then have "sels = [] \<or> (\<exists>x. sels = [x])" by (cases sels) auto
  with True show ?thesis by (auto simp: sort_selections_def)
next
  case False
  let ?g = "\<lambda>s. - int (length (the (f_authors (hd (rf_filters s)))))"
  have nf: "find (\<lambda>s. rf_filters s = []) sels = None" using assms by (auto simp: find_None_iff)
  have "\<forall>s \<in> set sels. (case selection_key s of Inl _ \<Rightarrow> None | Inr k \<Rightarrow> k) = Some (?g s)"
    using assms by (auto simp: selection_key_def)
  then have "js_sort_by (\<lambda>s. case selection_key s of Inl _ \<Rightarrow> None | Inr k \<Rightarrow> k) sels = sort_key ?g sels"
    by (rule js_sort_by_eq_sort_key)
  with False nf show ?thesis by (simp add: sort_selections_def)
qed

theorem sort_selections_by_authors_witness:
  "sort_selections [\<lparr>rf_relay = ''wss://a'', rf_filters = [example_authors_filter\<lparr>f_authors := Some [''p'']\<rparr>]\<rparr>,
               \<lparr>rf_relay = ''wss://b'', rf_filters = [example_authors_filter]\<rparr>]
     = Inr [\<lparr>rf_relay = ''wss://b'', rf_filters = [example_authors_filter]\<rparr>,
            \<lparr>rf_relay = ''wss://a'', rf_filters = [example_authors_filter\<lparr>f_authors := Some [''p'']\<rparr>]\<rparr>]"
proof -
  have h: "\<forall>s \<in> set [\<lparr>rf_relay = ''wss://a'', rf_filters = [example_authors_filter\<lparr>f_authors := Some [''p'']\<rparr>]\<rparr>,
               \<lparr>rf_relay = ''wss://b'', rf_filters = [example_authors_filter]\<rparr>].
      \<exists>f fs as. rf_filters s = f # fs \<and> f_authors f = Some as"
    by (simp add: example_authors_filter_def)
  show ?thesis using h sort_selections_by_authors[OF h] by (simp add: example_authors_filter_def)
qed


lemma length_compress [simp]: "length (compress r sels) = min (relay_limit r) (length sels)"
  by (simp add: compress_def Let_def)

lemma nth_compress:
  "i < length (compress r sels) \<Longrightarrow> compress r sels ! i =
     (if i < relay_redundancy r
      then (sels ! i)\<lparr>rf_filters := mergeFilters r (concat (map rf_filters (drop (relay_limit r) sels @ [sels ! i])))\<rparr>
      else sels ! i)"
  by (simp add: compress_def Let_def)

lemma compress_relays: "map rf_relay (compress r sels) = take (relay_limit r) (map rf_relay sels)"
  by (rule nth_equalityI) (simp_all add: nth_compress)

text \<open>
  C25: With relay_redundancy 0 the planner simply truncates to relay_limit selections,
  so the filters of the discarded selections are sent nowhere.
\<close>

theorem compress_no_redundancy:
  "relay_redundancy r = 0 \<Longrightarrow> compress r sels = take (relay_limit r) sels"
  by (rule nth_equalityI) (simp_all add: nth_compress)


theorem compress_no_redundancy_witness:
  "relay_redundancy (example_router\<lparr>relay_redundancy := 0\<rparr>) = 0
   \<and> compress (example_router\<lparr>relay_redundancy := 0\<rparr>)
       [\<lparr>rf_relay = ''wss://a'', rf_filters = []\<rparr>, \<lparr>rf_relay = ''wss://b'', rf_filters = []\<rparr>,
        \<lparr>rf_relay = ''wss://c'', rf_filters = [example_authors_filter]\<rparr>]
     = [\<lparr>rf_relay = ''wss://a'', rf_filters = []\<rparr>, \<lparr>rf_relay = ''wss://b'', rf_filters = []\<rparr>]"
proof -
  have h: "relay_redundancy (example_router\<lparr>relay_redundancy := 0\<rparr>) = 0" by simp
  show ?thesis using compress_no_redundancy[OF h, of "[\<lparr>rf_relay = ''wss://a'', rf_filters = []\<rparr>,
      \<lparr>rf_relay = ''wss://b'', rf_filters = []\<rparr>, \<lparr>rf_relay = ''wss://c'', rf_filters = [example_authors_filter]\<rparr>]"]
    by (simp add: example_router_def)
qed

lemma getFilterSelections_compress:
  "getFilterSelections r fs = Inr out \<Longrightarrow> \<exists>sels. selections_of r fs = Inr sels \<and> out = compress r sels"
  by (auto simp: getFilterSelections_def split: sum.splits)

text \<open>
  C22: The planner returns at most relay_limit selections.
\<close>

theorem getFilterSelections_bound:
  "getFilterSelections r fs = Inr out \<Longrightarrow> length out \<le> relay_limit r"
  using getFilterSelections_compress by fastforce

theorem getFilterSelections_bound_witness:
  "getFilterSelections example_router [example_authors_filter] =
     Inr [\<lparr>rf_relay = ''wss://p'', rf_filters = [example_authors_filter\<lparr>f_authors := Some [''r'']\<rparr>,
                                                example_authors_filter\<lparr>f_authors := Some [''p'']\<rparr>]\<rparr>,
          \<lparr>rf_relay = ''wss://q'', rf_filters = [example_authors_filter\<lparr>f_authors := Some [''q'']\<rparr>]\<rparr>]
   \<and> length [\<lparr>rf_relay = ''wss://p'', rf_filters = [example_authors_filter\<lparr>f_authors := Some [''r'']\<rparr>,
                                                example_authors_filter\<lparr>f_authors := Some [''p'']\<rparr>]\<rparr>,
          \<lparr>rf_relay = ''wss://q'', rf_filters = [example_authors_filter\<lparr>f_authors := Some [''q'']\<rparr>]\<rparr>]
       \<le> relay_limit example_router"
proof -
  have h: "getFilterSelections example_router [example_authors_filter] =
     Inr [\<lparr>rf_relay = ''wss://p'', rf_filters = [example_authors_filter\<lparr>f_authors := Some [''r'']\<rparr>,
                                                example_authors_filter\<lparr>f_authors := Some [''p'']\<rparr>]\<rparr>,
          \<lparr>rf_relay = ''wss://q'', rf_filters = [example_authors_filter\<lparr>f_authors := Some [''q'']\<rparr>]\<rparr>]"
    by (simp add: getFilterSelections_def selections_of_def route_all_def route_filter_def has_search_def
        contexts_of_def add_scenario_def example_router_def example_authors_filter_def sort_selections_def
        js_sort_by_def selection_key_def compress_def Let_def)
  show ?thesis using h getFilterSelections_bound[OF h] by blast
qed

lemma getFilterSelections_empty:
  "merge_scenarios r [] = [] \<Longrightarrow> getFilterSelections r [] = Inr []"
  by (simp add: getFilterSelections_def selections_of_def route_all_def sort_selections_def
      js_sort_by_def compress_def)

lemma merged_covered:
  "\<forall>gs g. g \<in> set gs \<longrightarrow> (\<exists>h \<in> set (mergeFilters r gs). covers h g) \<Longrightarrow>
   s \<in> set ss \<Longrightarrow> f \<in> set (rf_filters s) \<Longrightarrow>
   \<exists>h \<in> set (mergeFilters r (concat (map rf_filters ss))). covers h f"
proof -
  assume mf: "\<forall>gs g. g \<in> set gs \<longrightarrow> (\<exists>h \<in> set (mergeFilters r gs). covers h g)"
    and "s \<in> set ss" "f \<in> set (rf_filters s)"
  then have "f \<in> set (concat (map rf_filters ss))" by auto
  with mf show ?thesis by blast
qed

text \<open>
  C23: When mergeFilters covers its inputs and both relay_limit and relay_redundancy are
  positive, every filter of every selection is still sent, or covered by a merged
  filter, on some kept relay.
\<close>

theorem compress_coverage:
  assumes mf: "\<forall>gs g. g \<in> set gs \<longrightarrow> (\<exists>h \<in> set (mergeFilters r gs). covers h g)"
    and lim: "0 < relay_limit r" and red: "0 < relay_redundancy r"
    and s: "s \<in> set sels" and f: "f \<in> set (rf_filters s)"
  shows "\<exists>sel \<in> set (compress r sels). f \<in> set (rf_filters sel) \<or> (\<exists>h \<in> set (rf_filters sel). covers h f)"
proof -
  obtain j where j: "j < length sels" "sels ! j = s" using s by (metis in_set_conv_nth)
  show ?thesis
  proof (cases "j < relay_limit r")
    case True
    then have jc: "j < length (compress r sels)" using j by simp
    then have sel: "compress r sels ! j \<in> set (compress r sels)" by simp
    show ?thesis
    proof (cases "j < relay_redundancy r")
      case True
      have "\<exists>h \<in> set (mergeFilters r (concat (map rf_filters (drop (relay_limit r) sels @ [s])))). covers h f"
        by (rule merged_covered[OF mf _ f]) simp
      then show ?thesis using sel nth_compress[OF jc] True j by force
    next
      case False
      then show ?thesis using sel nth_compress[OF jc] j f by force
    qed
  next
    case False
    then have "s = drop (relay_limit r) sels ! (j - relay_limit r)" using j by simp
    moreover have "j - relay_limit r < length (drop (relay_limit r) sels)" using False j by simp
    ultimately have sd: "s \<in> set (drop (relay_limit r) sels)" by (metis nth_mem)
    have zc: "0 < length (compress r sels)" using lim j by (auto simp: min_def)
    then have sel: "compress r sels ! 0 \<in> set (compress r sels)" by simp
    have "\<exists>h \<in> set (mergeFilters r (concat (map rf_filters (drop (relay_limit r) sels @ [sels ! 0])))). covers h f"
      by (rule merged_covered[OF mf _ f]) (use sd in simp)
    then show ?thesis using sel nth_compress[OF zc] red by force
  qed
qed

theorem compress_coverage_witness:
  "0 < relay_limit example_router \<and> 0 < relay_redundancy example_router
   \<and> \<lparr>rf_relay = ''wss://c'', rf_filters = [example_authors_filter]\<rparr> \<in> set
       [\<lparr>rf_relay = ''wss://a'', rf_filters = []\<rparr>, \<lparr>rf_relay = ''wss://b'', rf_filters = []\<rparr>,
        \<lparr>rf_relay = ''wss://c'', rf_filters = [example_authors_filter]\<rparr>]
   \<and> example_authors_filter \<in> set (rf_filters \<lparr>rf_relay = ''wss://c'', rf_filters = [example_authors_filter]\<rparr>)
   \<and> (\<exists>sel \<in> set (compress example_router [\<lparr>rf_relay = ''wss://a'', rf_filters = []\<rparr>, \<lparr>rf_relay = ''wss://b'', rf_filters = []\<rparr>,
        \<lparr>rf_relay = ''wss://c'', rf_filters = [example_authors_filter]\<rparr>]).
       example_authors_filter \<in> set (rf_filters sel) \<or> (\<exists>h \<in> set (rf_filters sel). h = example_authors_filter))"
proof -
  have h: "\<forall>gs g. g \<in> set gs \<longrightarrow> (\<exists>h \<in> set (mergeFilters example_router gs). h = g)"
    "0 < relay_limit example_router" "0 < relay_redundancy example_router"
    "\<lparr>rf_relay = ''wss://c'', rf_filters = [example_authors_filter]\<rparr> \<in> set
       [\<lparr>rf_relay = ''wss://a'', rf_filters = []\<rparr>, \<lparr>rf_relay = ''wss://b'', rf_filters = []\<rparr>,
        \<lparr>rf_relay = ''wss://c'', rf_filters = [example_authors_filter]\<rparr>]"
    "example_authors_filter \<in> set (rf_filters \<lparr>rf_relay = ''wss://c'', rf_filters = [example_authors_filter]\<rparr>)"
    by (simp_all add: example_router_def)
  show ?thesis using h compress_coverage[where covers = "\<lambda>h g. h = g", OF h] by blast
qed

lemma registered_add: "scenarios_registered acc \<Longrightarrow> scenarios_registered (add_scenario r acc f rs)"
  by (auto simp: scenarios_registered_def add_scenario_def Let_def)

lemma registered_foldl:
  "scenarios_registered acc \<Longrightarrow>
   scenarios_registered (foldl (\<lambda>a (relay, values). add_scenario r a (F values) [relay]) acc xs)"
proof (induction xs arbitrary: acc)
  case Nil then show ?case by simp
next
  case (Cons x xs)
  obtain relay vs where x: "x = (relay, vs)" by (cases x)
  have "scenarios_registered (add_scenario r acc (F vs) [relay])"
    using Cons.prems by (rule registered_add)
  then show ?case using Cons.IH x by simp
qed

lemma registered_route:
  assumes "scenarios_registered acc" shows "scenarios_registered (route_filter r acc f)"
proof -
  have c: "scenarios_registered (foldl (\<lambda>a (relay, vs). add_scenario r a (f\<lparr>f_tag_a := Some vs\<rparr>) [relay]) acc xs)"
    for xs using registered_foldl[OF assms, of r "\<lambda>vs. f\<lparr>f_tag_a := Some vs\<rparr>"] by simp
  have a: "scenarios_registered (foldl (\<lambda>a (relay, vs). add_scenario r a (f\<lparr>f_authors := Some vs\<rparr>) [relay]) acc xs)"
    for xs using registered_foldl[OF assms, of r "\<lambda>vs. f\<lparr>f_authors := Some vs\<rparr>"] by simp
  show ?thesis
    unfolding route_filter_def using registered_add[OF assms] c a by (simp split: option.split)
qed

lemma registered_route_all: "scenarios_registered (route_all r fs)"
proof -
  have "scenarios_registered acc \<Longrightarrow> scenarios_registered (foldl (route_filter r) acc fs)" for acc
    by (induction fs arbitrary: acc) (simp_all add: registered_route)
  then show ?thesis by (simp add: route_all_def scenarios_registered_def)
qed

lemma lookup_filters_ok:
  "set ids \<subseteq> dom m \<Longrightarrow> \<exists>fs. lookup_filters m ids = Inr fs \<and> length fs = length ids"
proof (induction ids)
  case Nil then show ?case by simp
next
  case (Cons i ids)
  obtain f where f: "m i = Some f" using Cons.prems by auto
  obtain fs where fs: "lookup_filters m ids = Inr fs" "length fs = length ids"
    using Cons.IH Cons.prems by auto
  show ?case using f fs by simp
qed

lemma lookup_selections_ok:
  "\<forall>p \<in> set ps. snd p \<noteq> [] \<and> set (snd p) \<subseteq> dom m \<Longrightarrow>
   \<exists>sels. lookup_selections m ps = Inr sels \<and> (\<forall>s \<in> set sels. rf_filters s \<noteq> [])"
proof (induction ps)
  case Nil then show ?case by simp
next
  case (Cons p ps)
  obtain relay ids where p: "p = (relay, ids)" by (cases p)
  have ids: "ids \<noteq> []" "set ids \<subseteq> dom m" using Cons.prems p by auto
  obtain fs where fs: "lookup_filters m ids = Inr fs" "length fs = length ids"
    using lookup_filters_ok[OF ids(2)] by blast
  have "\<forall>p \<in> set ps. snd p \<noteq> [] \<and> set (snd p) \<subseteq> dom m" using Cons.prems by simp
  then obtain sels where sels: "lookup_selections m ps = Inr sels" "\<forall>s \<in> set sels. rf_filters s \<noteq> []"
    using Cons.IH by blast
  have "fs \<noteq> []" using fs(2) ids(1) by auto
  then show ?case using p fs(1) sels by simp
qed

text \<open>
  C21: When the hint merger only returns non-empty subsets of the ids it was given,
  getFilterSelections never fails: no lookup of a filter id misses and no selection is
  empty.
\<close>

theorem getFilterSelections_total:
  "merge_contract r \<Longrightarrow> \<exists>out. getFilterSelections r fs = Inr out"
proof -
  assume mc: "merge_contract r"
  obtain m sc where rt: "route_all r fs = (m, sc)" by (cases "route_all r fs")
  have reg: "\<forall>x \<in> set sc. set (fst x) \<subseteq> dom m"
    using registered_route_all[of r fs] rt by (simp add: scenarios_registered_def)
  have "\<forall>p \<in> set (merge_scenarios r sc). snd p \<noteq> [] \<and> set (snd p) \<subseteq> dom m"
  proof
    fix p assume p: "p \<in> set (merge_scenarios r sc)"
    obtain relay ids where pe: "p = (relay, ids)" by (cases p)
    have "ids \<noteq> [] \<and> set ids \<subseteq> (\<Union>x \<in> set sc. set (fst x))"
      using mc p pe unfolding merge_contract_def by blast
    then have "snd p \<noteq> [] \<and> set (snd p) \<subseteq> (\<Union>x \<in> set sc. set (fst x))" using pe by simp
    then show "snd p \<noteq> [] \<and> set (snd p) \<subseteq> dom m" using reg by blast
  qed
  then obtain sels where sels: "lookup_selections m (merge_scenarios r sc) = Inr sels"
      "\<forall>s \<in> set sels. rf_filters s \<noteq> []"
    using lookup_selections_ok by blast
  have "find (\<lambda>s. rf_filters s = []) sels = None" using sels(2) by (simp add: find_None_iff)
  then show ?thesis
    by (simp add: getFilterSelections_def selections_of_def rt sels(1) sort_selections_def)
qed

theorem getFilterSelections_total_witness:
  "merge_contract example_router \<and> (\<exists>out. getFilterSelections example_router [example_authors_filter] = Inr out)"
proof -
  have h: "merge_contract example_router" by (auto simp: merge_contract_def example_router_def split: if_splits)
  show ?thesis using h getFilterSelections_total[OF h] by blast
qed

end
