(* ===== verification/Spec2Isabelle.thy ===== *)
theory Spec2Isabelle
  imports Count Publish Selections
begin

text \<open>
  \<^bold>\<open>A verification library for the relay network engine of coracle.\<close>

  \<^bold>\<open>The program.\<close> \<open>src/src/engine/components/Network.ts\<close> is the engine's
  network layer. \<open>getUrls\<close> normalises and deduplicates the caller's relays;
  \<open>getExecutor\<close> turns URLs into a transport target (a multiplexer \<open>Plex\<close> or one
  socket per relay, \<open>Relays\<close>), connects its sockets and installs the boot gate and
  the AUTH callbacks; three coordinators run on an executor: \<open>publish\<close> (a promise
  over three sets of relays and a timer), \<open>subscribe\<close> (a deduplicating event
  stream with an EOSE fast path and an optional timeout) and \<open>count\<close> (the first
  count or 0). All of them announce on the process-wide bus \<open>Network.emitter\<close>.
  \<open>src/src/engine/network/utils/filters.ts\<close> prepares filters before they reach a
  coordinator: scope compilation, repost expansion, and the assignment of filters
  to relays \<open>getFilterSelections\<close>.

  \<^bold>\<open>Theories and what they model.\<close>
  \<^item> \<open>Prelude\<close>: the event record, the bus messages, JavaScript \<open>Set\<close> as an
    insertion-ordered list (\<open>ord_insert\<close>, \<open>ord_set_of\<close>, proved equal to
    \<open>rev (remdups (rev xs))\<close>), truthiness of an optional number and of an
    optional string (the empty string is falsy).
  \<^item> \<open>Urls\<close>: \<open>getUrls\<close> (lines 22--34) with its log, over \<open>normalizeRelayUrl\<close>
    (of \<open>src/util/nostr\<close>, not staged; modelled from the specification as lowercasing
    and dropping trailing slashes).
  \<^item> \<open>Session\<close>: the pool at its boundary (\<open>pool.get\<close>, \<open>socket.connect\<close>), the
    selector \<open>relayHasError\<close> (line 46, which through \<open>pool.get\<close> may add a socket), \<open>getExecutor\<close> (54--119) as
    \<open>executor_urls\<close>, \<open>choose_target\<close> and \<open>connect_socket\<close>, the deferral
    predicate of line 110, the boot timer of line 114, \<open>onAuth\<close>/\<open>onOk\<close>
    (81--96), the initial state \<open>contributeState\<close> (37--43), and \<open>session_step\<close>,
    a step function over every operation that changes the pool, so that any
    interleaving is a list of operations.
  \<^item> \<open>Publish\<close>: the promise body of \<open>publish\<close> (121--182): state record
    \<open>pub_state\<close> (the three sets, subscription and timer liveness, the log of
    progress reports, resolutions, unsubscribe and cleanup), \<open>pub_step\<close> over the
    three callbacks, \<open>publish\<close> for the whole call.
  \<^item> \<open>Subscribe\<close>: \<open>subscribe\<close> (184--272): the \<open>seen\<close> table and the \<open>eose\<close> set,
    \<open>on_event\<close> and \<open>on_eose\<close> for the two callbacks, \<open>sub_close\<close> for the
    \<open>close\<close> listener, the timer and the external close as inputs; the externals
    \<open>verifySignature\<close> (which may throw: \<open>None\<close>) and \<open>matchFilters\<close> are the
    interface record \<open>sub_ext\<close>, polymorphic in the filter type.
  \<^item> \<open>Count\<close>: \<open>count\<close> (274--289) over \<open>COUNT_RELAYS\<close>.
  \<^item> \<open>Filters\<close>: \<open>compileFilters\<close> (25--56) over a social-graph context
    \<open>scope_ctx\<close>, and \<open>addRepostFilters\<close> (58--77).
  \<^item> \<open>Selections\<close>: \<open>getFilterSelections\<close> (84--153) over the interface record
    \<open>router\<close> (routing hints, filter ids, \<open>mergeFilters\<close>, the two settings), with
    Ramda's \<open>sortBy\<close> as a stable insertion sort under JavaScript's comparison. It is
    exact for numeric keys; with a \<open>NaN\<close> key (a selection without authors) the
    engine's order is implementation-defined and the model does not reproduce it.
  \<^item> this theory: properties that span components (executor and publish, URL
    normalisation and subscribe).

  \<^bold>\<open>Effects and time.\<close> Every state carries the log of what the code does to the
  outside, in program order (bus messages, callbacks, unsubscribe, cleanup,
  connections, timers). A promise's value is its first \<open>resolve\<close>. Time is
  abstract: a timer firing and a relay answering are inputs of the same list, so a
  list of inputs is an interleaving and every theorem over runs holds for all
  interleavings. The constants are kept as the code has them (\<open>boot_ms = 2000\<close>,
  \<open>count_ms = 3000\<close>, \<open>max_authors = 1000\<close>) but no theorem depends on their
  values; no loop of the code is unbounded, so no fuel is needed: every handler is
  a total function and every run a \<open>foldl\<close> over a finite input list. What
  termination means for a coordinator is that it stops reacting: after its timer a
  publish and a subscription are in a state that every further input leaves
  unchanged (\<open>publish_terminates_on_timer\<close>, \<open>subscribe_terminates_on_timer\<close>).
  The one non-structural recursion, \<open>string_of_nat\<close> (\<open>String(n)\<close> on kinds), is a
  \<open>fun\<close> on \<open>n div 10\<close> whose termination Isabelle finds itself.

  \<^bold>\<open>What the lemmas show.\<close> Subscribe: each event id is delivered at most once
  on each channel, only verified and matching events are delivered, the seen table
  is the ordered set of relays that sent the id and stays well formed, an accepted
  event goes to the bus, the queue and the callback in that order, each relay's
  EOSE timing is reported once, teardown happens exactly once after closing, the
  timer and the EOSE fast path close the subscription. Publish: the promise body
  refines an abstract specification \<open>publish_spec\<close> that computes the resolution
  from the answers alone; the promise resolves on the timer or when every relay
  answered, the resolution covers the URLs with timeouts disjoint from the answers,
  and the target is cleaned up exactly twice when the relays answer before the
  timer. Count: the promise settles on the first count, or 0 on the timer, and the
  teardown is one unsubscribe and one cleanup when the timer fires. URLs: spellings
  that differ in case and trailing slashes merge into one URL with a warning.
  Selections: the
  planner is total under the merge contract, keeps at most \<open>relay_limit\<close> relays,
  keeps coverage of every filter when the redundancy is positive, and its sort
  agrees with \<open>sort_key\<close> on numeric keys. Session: after \<open>getExecutor\<close> the
  target's sockets are in the pool and connected, and the boot gate and the AUTH
  handler behave as the code does. Several theorems
  record behaviour that differs from the specification or from the comments
  (the manifest's findings): the boot gate defers work only after its timer, a
  good AUTH acknowledgment marks the pool and not the socket, a relay can be both
  succeeded and failed, cleanup runs twice, a forged first copy blocks the valid
  one, duplicate relays disable the EOSE fast path, \<open>FORCE_RELAYS\<close> makes every
  publish report all relays as timed out and sends counts to the forced relays, the
  answer that completes a publish is not reported as progress, and zero redundancy
  drops the discarded filters.

  \<^bold>\<open>Not modelled.\<close> \<open>cursor\<close>, \<open>multiCursor\<close> and \<open>feed\<close> (lines 291--296) only
  construct objects of \<open>src/engine/util\<close>, which is not staged.
  \<open>src/src/engine2/index.ts\<close> belongs to a separate engine: it re-exports
  modules that are not staged and sets engine2's own \<open>authHandler\<close> store to its
  \<open>handleAuth\<close>; that store is not \<open>Network.authHandler\<close>, whose presence the
  model keeps as the flag \<open>auth_handler_set\<close> (its calls are \<open>AuthCallback\<close>
  effects). The log
  messages (\<open>log\<close>, except \<open>getUrls\<close>'s error and warning), the paravel
  transport's wire protocol, signature verification and filter matching are
  external and enter only through the interface records.
\<close>

definition forced_inv :: "url list \<Rightarrow> pub_state \<Rightarrow> bool" where
  "forced_inv urls s = (pub_urls s = urls \<and> urls \<noteq> []
     \<and> (succeeded s \<union> failed s) \<inter> set urls = {}
     \<and> (pub_timer_armed s \<longrightarrow> timeouts s = {} \<and> pub_sub_live s \<and> first_resolve (pub_out s) = None)
     \<and> (\<not> pub_timer_armed s \<longrightarrow> \<not> pub_sub_live s
          \<and> (\<exists>p. first_resolve (pub_out s) = Some p \<and> pr_timeouts p = set urls)))"

lemma forced_inv_init: "urls \<noteq> [] \<Longrightarrow> forced_inv urls (publish_init urls h)"
  by (simp add: forced_inv_def publish_init_def attemptToResolve_def getProgress_def Let_def)

lemma outside_not_covered:
  "u \<notin> set urls \<Longrightarrow> A \<inter> set urls = {} \<Longrightarrow> urls \<noteq> [] \<Longrightarrow> \<not> set urls \<subseteq> insert u A"
  by (cases urls) auto

lemma forced_inv_step:
  assumes inv: "forced_inv urls s" and out: "\<forall>u. input_url i = Some u \<longrightarrow> u \<notin> set urls"
  shows "forced_inv urls (pub_step s i)
    \<and> (pub_timer_armed (pub_step s i) \<longleftrightarrow> pub_timer_armed s \<and> i \<noteq> PubTimer)"
proof (cases "pub_timer_armed s")
  case False
  then have "\<not> pub_sub_live s" using inv by (simp add: forced_inv_def)
  with False inv show ?thesis by (cases i) simp_all
next
  case True
  then have t: "timeouts s = {}" "pub_sub_live s" and fr: "first_resolve (pub_out s) = None"
    using inv by (simp_all add: forced_inv_def)
  have nr: "\<forall>p. Resolve p \<notin> set (pub_out s)" using fr by simp
  have d: "(succeeded s \<union> failed s) \<inter> set urls = {}" "pub_urls s = urls" "urls \<noteq> []"
    using inv by (simp_all add: forced_inv_def)
  show ?thesis
  proof (cases i)
    case (PubOk u)
    then have u: "u \<notin> set urls" using out by simp
    have "\<not> set urls \<subseteq> insert u (succeeded s \<union> failed s)" using u d(1,3) by (rule outside_not_covered)
    then show ?thesis using u PubOk True t d nr
      by (auto simp: forced_inv_def attemptToResolve_def getProgress_def Let_def first_resolve_append)
  next
    case (PubError u)
    then have u: "u \<notin> set urls" using out by simp
    have "\<not> set urls \<subseteq> insert u (succeeded s \<union> failed s)" using u d(1,3) by (rule outside_not_covered)
    then show ?thesis using u PubError True t d nr
      by (auto simp: forced_inv_def attemptToResolve_def getProgress_def Let_def first_resolve_append)
  next
    case PubTimer
    have "{u \<in> set urls. u \<notin> succeeded s \<and> u \<notin> failed s} = set urls" using d by auto
    then show ?thesis using PubTimer True t d
      by (simp add: forced_inv_def attemptToResolve_def getProgress_def Let_def first_resolve_append fr
          Un_assoc)
  qed
qed

lemma forced_inv_run:
  "forced_inv urls s \<Longrightarrow> \<forall>i \<in> set inps. \<forall>u. input_url i = Some u \<longrightarrow> u \<notin> set urls \<Longrightarrow>
   forced_inv urls (pub_run s inps)
   \<and> (pub_timer_armed (pub_run s inps) \<longleftrightarrow> pub_timer_armed s \<and> PubTimer \<notin> set inps)"
proof (induction inps arbitrary: s)
  case Nil then show ?case by simp
next
  case (Cons i inps)
  have "forced_inv urls (pub_step s i)
    \<and> (pub_timer_armed (pub_step s i) \<longleftrightarrow> pub_timer_armed s \<and> i \<noteq> PubTimer)"
    using Cons.prems by (intro forced_inv_step) simp_all
  then show ?case using Cons.IH[of "pub_step s i"] Cons.prems(2) by auto
qed

text \<open>
  C13: With FORCE_RELAYS set and disjoint from the requested relays, the executor only
  reaches the forced relays, so publish resolves exactly when the timer fires and then
  reports every requested relay as timed out, even if the forced relays accepted.
\<close>

theorem publish_forced_relays_all_timeout:
  assumes pub: "publish cfg n relays h verb = (log, tg, n', s)"
    and f: "force_relays cfg \<noteq> []" "set (force_relays cfg) \<inter> normalizeRelayUrl ` set relays = {}"
    and r: "relays \<noteq> []"
    and ans: "\<forall>i \<in> set inps. \<forall>u. input_url i = Some u \<longrightarrow>
                u \<in> set (executor_urls cfg (snd (getUrls normalizeRelayUrl relays)))"
  shows "(resolved (pub_run s inps) \<longleftrightarrow> PubTimer \<in> set inps)
    \<and> (\<forall>p. first_resolve (pub_out (pub_run s inps)) = Some p \<longrightarrow>
           pr_timeouts p = normalizeRelayUrl ` set relays)"
proof -
  let ?urls = "snd (getUrls normalizeRelayUrl relays)"
  have su: "set ?urls = normalizeRelayUrl ` set relays" by (simp add: getUrls_urls)
  have ne: "?urls \<noteq> []" using su r by auto
  have s: "s = publish_init ?urls h"
    using pub by (simp add: publish_def Let_def case_prod_beta)
  have out: "\<forall>i \<in> set inps. \<forall>u. input_url i = Some u \<longrightarrow> u \<notin> set ?urls"
    using ans f su by (auto simp: executor_urls_def)
  have "forced_inv ?urls (pub_run s inps)
    \<and> (pub_timer_armed (pub_run s inps) \<longleftrightarrow> pub_timer_armed s \<and> PubTimer \<notin> set inps)"
    using forced_inv_run[OF forced_inv_init[OF ne] out] s by simp
  moreover have "pub_timer_armed s"
    using s by (simp add: publish_init_def)
  ultimately have inv: "forced_inv ?urls (pub_run s inps)"
    and armed: "pub_timer_armed (pub_run s inps) \<longleftrightarrow> PubTimer \<notin> set inps" by simp_all
  show ?thesis
  proof (cases "PubTimer \<in> set inps")
    case True
    then obtain p where "first_resolve (pub_out (pub_run s inps)) = Some p"
      "pr_timeouts p = set ?urls" using inv armed by (auto simp: forced_inv_def)
    then show ?thesis using True su by (simp add: resolved_def)
  next
    case False
    then have fr: "first_resolve (pub_out (pub_run s inps)) = None"
      using inv armed unfolding forced_inv_def by blast
    show ?thesis using False unfolding resolved_def fr by simp
  qed
qed

theorem publish_forced_relays_all_timeout_witness:
  "force_relays (example_config\<lparr>force_relays := [''wss://forced'']\<rparr>) \<noteq> []
   \<and> set (force_relays (example_config\<lparr>force_relays := [''wss://forced'']\<rparr>)) \<inter> normalizeRelayUrl ` set [''wss://a''] = {}
   \<and> executor_urls (example_config\<lparr>force_relays := [''wss://forced'']\<rparr>) (snd (getUrls normalizeRelayUrl [''wss://a'']))
       = [''wss://forced'']
   \<and> resolved (pub_run (publish_init [''wss://a''] False) [PubOk ''wss://forced'', PubTimer])
   \<and> \<not> resolved (pub_run (publish_init [''wss://a''] False) [PubOk ''wss://forced''])
   \<and> (\<exists>p. first_resolve (pub_out (pub_run (publish_init [''wss://a''] False) [PubOk ''wss://forced'', PubTimer])) = Some p
          \<and> pr_timeouts p = {''wss://a''} \<and> pr_succeeded p = {''wss://forced''})"
proof -
  let ?cfg = "example_config\<lparr>force_relays := [''wss://forced'']\<rparr>"
  let ?P = "publish ?cfg contributeState [''wss://a''] False ''EVENT''"
  have na: "normalizeRelayUrl ''wss://a'' = ''wss://a''"
    by (simp add: normalizeRelayUrl_def lower_char_def)
  have pub: "?P = (fst ?P, fst (snd ?P), fst (snd (snd ?P)), publish_init [''wss://a''] False)"
    using na by (simp add: publish_def getUrls_def Let_def case_prod_beta ord_set_of_def ord_insert_def)
  have h: "force_relays ?cfg \<noteq> []" "set (force_relays ?cfg) \<inter> normalizeRelayUrl ` set [''wss://a''] = {}"
    "[''wss://a''] \<noteq> []"
    "\<forall>i \<in> set [PubOk ''wss://forced'', PubTimer]. \<forall>u. input_url i = Some u \<longrightarrow>
        u \<in> set (executor_urls ?cfg (snd (getUrls normalizeRelayUrl [''wss://a''])))"
    using na by (simp_all add: executor_urls_def)
  have r: "(resolved (pub_run (publish_init [''wss://a''] False) [PubOk ''wss://forced'', PubTimer]) \<longleftrightarrow>
      PubTimer \<in> set [PubOk ''wss://forced'', PubTimer])
    \<and> (\<forall>p. first_resolve (pub_out (pub_run (publish_init [''wss://a''] False) [PubOk ''wss://forced'', PubTimer])) = Some p \<longrightarrow>
           pr_timeouts p = normalizeRelayUrl ` set [''wss://a''])"
    by (rule publish_forced_relays_all_timeout[OF pub h])
  have "\<not> resolved (pub_run (publish_init [''wss://a''] False) [PubOk ''wss://forced''])"
    using publish_forced_relays_all_timeout[OF pub h(1-3), of "[PubOk ''wss://forced'']"] h(4) by simp
  moreover have "\<exists>p. first_resolve (pub_out (pub_run (publish_init [''wss://a''] False) [PubOk ''wss://forced'', PubTimer])) = Some p
      \<and> pr_succeeded p = {''wss://forced''}"
    by (simp add: publish_init_def attemptToResolve_def getProgress_def Let_def first_resolve_append)
  ultimately show ?thesis using h r na by (auto simp: executor_urls_def)
qed

lemma eose_from_set: "set a = set b \<Longrightarrow> eose_from a = eose_from b"
  by (simp add: eose_from_def fun_eq_iff split: sub_input.splits)

lemma subscribe_state:
  "subscribe cfg n relays flt t p oe oo now = (log, tg, n', s) \<Longrightarrow>
   s = subscribe_init relays (ord_set_of (map normalizeRelayUrl relays)) (ensurePlural flt) t p oe oo now
   \<and> log = fst (getUrls normalizeRelayUrl relays)"
proof -
  obtain lg us where g: "getUrls normalizeRelayUrl relays = (lg, us)" by (cases "getUrls normalizeRelayUrl relays")
  obtain t1 n1 where e: "getExecutor cfg n us False = (t1, n1)" by (cases "getExecutor cfg n us False")
  assume "subscribe cfg n relays flt t p oe oo now = (log, tg, n', s)"
  then have "log = lg" "s = subscribe_init relays us (ensurePlural flt) t p oe oo now"
    by (simp_all add: subscribe_def g e)
  moreover have "us = ord_set_of (map normalizeRelayUrl relays)" using getUrls_urls[of normalizeRelayUrl relays] g by simp
  ultimately show ?thesis using g by simp
qed

lemma card_set_less_length: "\<not> distinct xs \<Longrightarrow> card (set xs) < length xs"
  using card_length[of xs] card_distinct[of xs] by linarith

text \<open>
  C15: A subscription with a truthy timeout over relays that normalise without
  collisions closes as soon as every relay has sent EOSE, and getUrls logs nothing.
\<close>

theorem subscribe_closes_when_all_relays_eose:
  assumes sub: "subscribe cfg n relays flt t p oe oo now = (log, tg, n', s)"
    and t: "truthy_nat t" and r: "relays \<noteq> []" and d: "distinct (map normalizeRelayUrl relays)"
    and inps: "\<forall>i \<in> set inps. eose_from (map normalizeRelayUrl relays) i"
    and all: "normalizeRelayUrl ` set relays \<subseteq> eose_senders inps"
  shows "log = [] \<and> sub_closed (sub_run x s inps)"
proof -
  let ?urls = "map normalizeRelayUrl relays"
  have s: "s = subscribe_init relays ?urls (ensurePlural flt) t p oe oo now"
    using subscribe_state[OF sub] d by (simp add: ord_set_of_distinct)
  have "log = []" using subscribe_state[OF sub] r d by (simp add: getUrls_log)
  moreover have "sub_closed (sub_run x s inps)"
    unfolding s using t _ d _ inps
    by (rule subscribe_eose_fast_path) (use r all in auto)
  ultimately show ?thesis ..
qed

theorem subscribe_closes_when_all_relays_eose_witness:
  "truthy_nat (Some 5) \<and> [''wss://a'', ''wss://b''] \<noteq> [] \<and> distinct (map normalizeRelayUrl [''wss://a'', ''wss://b''])
   \<and> normalizeRelayUrl ` set [''wss://a'', ''wss://b''] \<subseteq> eose_senders [SubEose ''wss://a'' 1, SubEose ''wss://b'' 2]
   \<and> sub_closed (sub_run example_ext (subscribe_init [''wss://a'', ''wss://b''] [''wss://a'', ''wss://b''] [1::nat] (Some 5) True True True 0)
        [SubEose ''wss://a'' 1, SubEose ''wss://b'' 2])"
proof -
  let ?S = "subscribe example_config contributeState [''wss://a'', ''wss://b''] (One (1::nat)) (Some 5) True True True 0"
  have na: "normalizeRelayUrl ''wss://a'' = ''wss://a''" "normalizeRelayUrl ''wss://b'' = ''wss://b''"
    by (simp_all add: normalizeRelayUrl_def lower_char_def)
  have sub: "?S = (fst ?S, fst (snd ?S), fst (snd (snd ?S)),
      subscribe_init [''wss://a'', ''wss://b''] [''wss://a'', ''wss://b''] [1::nat] (Some 5) True True True 0)"
    using na by (simp add: subscribe_def getUrls_def Let_def case_prod_beta ord_set_of_def ord_insert_def ensurePlural_def)
  have h: "truthy_nat (Some 5)" "[''wss://a'', ''wss://b''] \<noteq> []" "distinct (map normalizeRelayUrl [''wss://a'', ''wss://b''])"
    "\<forall>i \<in> set [SubEose ''wss://a'' 1, SubEose ''wss://b'' 2]. eose_from (map normalizeRelayUrl [''wss://a'', ''wss://b'']) i"
    "normalizeRelayUrl ` set [''wss://a'', ''wss://b''] \<subseteq> eose_senders [SubEose ''wss://a'' 1, SubEose ''wss://b'' 2]"
    using na by (simp_all add: eose_from_def eose_senders_def)
  have "sub_closed (sub_run example_ext (subscribe_init [''wss://a'', ''wss://b''] [''wss://a'', ''wss://b''] [1::nat] (Some 5) True True True 0)
        [SubEose ''wss://a'' 1, SubEose ''wss://b'' 2])"
    using subscribe_closes_when_all_relays_eose[OF sub h] by blast
  with h show ?thesis by blast
qed


text \<open>
  C16: When two caller relays normalise to the same URL, getUrls warns and the EOSE fast
  path can never close the subscription, because the code compares the number of EOSEs
  with relays.length rather than with the deduplicated URLs.
\<close>

theorem subscribe_duplicate_relays_stay_open:
  assumes sub: "subscribe cfg n relays flt t p oe oo now = (log, tg, n', s)"
    and d: "\<not> distinct (map normalizeRelayUrl relays)"
    and inps: "\<forall>i \<in> set inps. eose_from (map normalizeRelayUrl relays) i \<and> i \<noteq> SubTimer \<and> i \<noteq> SubClose"
  shows "LogWarn ''Attempted to connect to non-unique relays'' \<in> set log \<and> \<not> sub_closed (sub_run x s inps)"
proof -
  let ?urls = "ord_set_of (map normalizeRelayUrl relays)"
  have s: "s = subscribe_init relays ?urls (ensurePlural flt) t p oe oo now"
    using subscribe_state[OF sub] by simp
  have w: "LogWarn ''Attempted to connect to non-unique relays'' \<in> set log"
    using subscribe_state[OF sub] d by (simp add: getUrls_warn_iff)
  have len: "length ?urls < length relays"
    using card_set_less_length[OF d] by (simp add: length_ord_set_of distinct_card)
  have i: "\<forall>i \<in> set inps. eose_from ?urls i \<and> i \<noteq> SubTimer \<and> i \<noteq> SubClose"
    using inps eose_from_set[of ?urls "map normalizeRelayUrl relays"] by simp
  have "\<not> sub_closed (sub_run x (subscribe_init relays ?urls (ensurePlural flt) t p oe oo now) inps)"
    using len i by (rule subscribe_duplicate_relays_no_fast_path)
  then show ?thesis using w s by simp
qed


theorem subscribe_duplicate_relays_stay_open_witness:
  "\<not> distinct (map normalizeRelayUrl [''wss://a'', ''wss://a/''])
   \<and> \<not> sub_closed (sub_run example_ext (subscribe_init [''wss://a'', ''wss://a/''] [''wss://a''] [1::nat] (Some 5) True True True 0)
        [SubEose ''wss://a'' 1])"
proof -
  let ?S = "subscribe example_config contributeState [''wss://a'', ''wss://a/''] (One (1::nat)) (Some 5) True True True 0"
  have na: "normalizeRelayUrl ''wss://a'' = ''wss://a''" "normalizeRelayUrl ''wss://a/'' = ''wss://a''"
    by (simp_all add: normalizeRelayUrl_def lower_char_def)
  have sub: "?S = (fst ?S, fst (snd ?S), fst (snd (snd ?S)),
      subscribe_init [''wss://a'', ''wss://a/''] [''wss://a''] [1::nat] (Some 5) True True True 0)"
    using na by (simp add: subscribe_def getUrls_def Let_def case_prod_beta ord_set_of_def ord_insert_def ensurePlural_def)
  have h: "\<not> distinct (map normalizeRelayUrl [''wss://a'', ''wss://a/''])"
    "\<forall>i \<in> set [SubEose ''wss://a'' 1]. eose_from (map normalizeRelayUrl [''wss://a'', ''wss://a/'']) i \<and> i \<noteq> SubTimer \<and> i \<noteq> SubClose"
    using na by (simp_all add: eose_from_def)
  have "\<not> sub_closed (sub_run example_ext (subscribe_init [''wss://a'', ''wss://a/''] [''wss://a''] [1::nat] (Some 5) True True True 0)
        [SubEose ''wss://a'' 1])"
    using subscribe_duplicate_relays_stay_open[OF sub h] by blast
  with h show ?thesis by blast
qed

end
